theory Spec2Isabelle
  imports Main "HOL-Library.Product_Lexorder"
begin

section \<open>Data model\<close>

text \<open>
  The repository holds several variants of one cycle-level simulator of an out-of-order
  processor. Three of them are embedded here in full:
  \<^item> the variant of \<^verbatim>\<open>src/unnamed/part_001\<close> (register status table with producing tags,
    a queue of completed instructions, reserved dispatch slots); its functions carry the
    suffix \<open>_p1\<close>;
  \<^item> the variant of \<^verbatim>\<open>src/unnamed/part_002\<close> (a register-ready array, candidates sorted by
    tag, result bus filled from a sorted list); its functions carry the suffix \<open>_p2\<close>;
  \<^item> the variant of the second document of \<^verbatim>\<open>src/procsim.cpp\<close> (sets of in-flight writers
    per register, readiness computed in the fire phase); its functions carry the suffix
    \<open>_ps\<close>. The first document of that file is the skeleton the variants grew from: its
    \<^verbatim>\<open>run_proc\<close> never assigns \<^verbatim>\<open>done\<close> and its stages are stubs.
  The opcode helpers of \<^verbatim>\<open>src/unnamed/part_000\<close> are embedded as well.

  Conventions of the embedding.
  \<^item> \<^verbatim>\<open>uint64_t\<close> counters (cycle, tag, free units, retired instructions) are \<open>nat\<close>: the
    code only increments them by one or decrements them after a test for \<open>> 0\<close>, so they
    would wrap only after \<open>2^64\<close> increments. The one product the code computes, the size
    of the reservation station, is taken modulo \<open>2^64\<close> (\<open>rs_size\<close>).
  \<^item> \<^verbatim>\<open>int32_t\<close> register numbers and opcodes are \<open>int\<close>; the code only compares them.
  \<^item> The arrays of \<^verbatim>\<open>NUM_REGISTERS\<close> cells are functions on \<open>int\<close>; every access is
    preceded by the test \<open>reg_ok\<close>, and an access outside the array (undefined behaviour
    in C++) is the error \<open>IndexOutOfRange\<close>.
  \<^item> The trace reader \<^verbatim>\<open>read_instruction\<close> is not among the sources; the remaining input
    is the field \<open>trace\<close>, a successful read removes its head.
  \<^item> The \<^verbatim>\<open>fprintf\<close>/\<^verbatim>\<open>printf\<close> lines of stage events are the list \<open>logging\<close> of
    (cycle, event, tag). The statistics (dispatch-queue sizes, the cycle of the first
    fetch) and the fields of \<^verbatim>\<open>rs_entry_t\<close> that no stage reads are left out.
\<close>

datatype error = IndexOutOfRange | CycleCeiling

record proc_inst_t =
  instruction_address :: nat
  op_code :: int
  src_reg0 :: int
  src_reg1 :: int
  dest_reg :: int
  tag :: nat

record rs_entry_t =
  valid :: bool
  instruction :: proc_inst_t
  src1_ready :: bool
  src2_ready :: bool
  src1_parent :: nat
  src2_parent :: nat
  fired :: bool
  completed :: bool
  state_updated :: bool
  execute_cycles_left :: nat
  completed_cycle :: nat
  state_update_cycle :: nat

record RegisterStatus =
  tag_reg :: nat
  ready :: bool

record InstructionCycles =
  fetch :: nat
  dispatch :: nat
  schedule :: nat
  execute :: nat
  state_update :: nat

datatype event_kind = FETCHED | DISPATCHED | SCHEDULED | EXECUTED | STATE_UPDATE

type_synonym event = "nat \<times> event_kind \<times> nat"

record config =
  RESULT_BUSES :: nat
  K0_FU_COUNT :: nat
  K1_FU_COUNT :: nat
  K2_FU_COUNT :: nat
  FETCH_RATE :: nat

text \<open>The globals of the simulator. \<open>reserved_slots\<close>, \<open>completed_instructions\<close> and
  \<open>register_status\<close> exist in part_001 only, \<open>register_ready\<close> in part_002 and procsim.cpp,
  \<open>register_last_state_updated\<close>, \<open>register_in_flight_writers\<close> (a \<^verbatim>\<open>std::set\<close> per register)
  and \<open>register_last_scheduled_writer\<close> in procsim.cpp only, \<open>instruction_cycles\<close> in part_001
  and procsim.cpp. A variant leaves the globals it does not have untouched.
  \<open>completed_instructions\<close> holds pointers to reservation-station entries; they are slot
  numbers here.\<close>

record proc_state =
  trace :: "proc_inst_t list"
  dispatch_queue :: "proc_inst_t list"
  reserved_slots :: nat
  reservation_station :: "rs_entry_t list"
  result_bus_tags :: "nat list"
  completed_instructions :: "nat list"
  register_status :: "int \<Rightarrow> RegisterStatus"
  register_ready :: "int \<Rightarrow> bool"
  register_last_state_updated :: "int \<Rightarrow> nat"
  register_in_flight_writers :: "int \<Rightarrow> nat set"
  register_last_scheduled_writer :: "int \<Rightarrow> nat"
  k0_fu_available :: nat
  k1_fu_available :: nat
  k2_fu_available :: nat
  global_tag_counter :: nat
  current_cycle :: nat
  instructions_retired :: nat
  instruction_cycles :: "nat \<rightharpoonup> InstructionCycles"
  logging :: "event list"

definition NUM_REGISTERS :: int where
  "NUM_REGISTERS = 128"

definition reg_ok :: "int \<Rightarrow> bool" where
  "reg_ok r \<longleftrightarrow> 0 \<le> r \<and> r < NUM_REGISTERS"

definition and_then :: "error + 'a \<Rightarrow> ('a \<Rightarrow> error + 'b) \<Rightarrow> error + 'b" where
  "and_then r f = (case r of Inl e \<Rightarrow> Inl e | Inr x \<Rightarrow> f x)"

text \<open>A value-initialised entry, as \<^verbatim>\<open>reservation_station.resize\<close> creates it.\<close>

definition inst_zero :: proc_inst_t where
  "inst_zero = \<lparr>instruction_address = 0, op_code = 0, src_reg0 = 0, src_reg1 = 0,
     dest_reg = 0, tag = 0\<rparr>"

definition rs_zero :: rs_entry_t where
  "rs_zero = \<lparr>valid = False, instruction = inst_zero, src1_ready = False, src2_ready = False,
     src1_parent = 0, src2_parent = 0, fired = False, completed = False,
     state_updated = False, execute_cycles_left = 0, completed_cycle = 0,
     state_update_cycle = 0\<rparr>"

definition cycles_zero :: InstructionCycles where
  "cycles_zero = \<lparr>fetch = 0, dispatch = 0, schedule = 0, execute = 0, state_update = 0\<rparr>"

text \<open>\<^verbatim>\<open>instruction_cycles[t].field = v\<close>: \<^verbatim>\<open>operator[]\<close> of \<^verbatim>\<open>std::map\<close> inserts a zero record
  for a new key.\<close>

definition stamp :: "nat \<Rightarrow> (InstructionCycles \<Rightarrow> InstructionCycles) \<Rightarrow>
    (nat \<rightharpoonup> InstructionCycles) \<Rightarrow> (nat \<rightharpoonup> InstructionCycles)" where
  "stamp t f m = m(t \<mapsto> f (case m t of None \<Rightarrow> cycles_zero | Some c \<Rightarrow> c))"

subsection \<open>Opcodes and functional units\<close>

text \<open>\<^verbatim>\<open>int fu_type = (op_code == -1) ? 1 : op_code;\<close>\<close>

definition fu_type :: "int \<Rightarrow> int" where
  "fu_type op = (if op = - 1 then 1 else op)"

text \<open>The chain that takes a unit in \<^verbatim>\<open>schedule_stage_first_half\<close> (the same text in
  procsim.cpp, part_001 and part_002): the result is \<^verbatim>\<open>fu_available\<close> and the state.\<close>

definition acquire_fu :: "int \<Rightarrow> proc_state \<Rightarrow> bool \<times> proc_state" where
  "acquire_fu op s =
     (if fu_type op = 0 \<and> k0_fu_available s > 0
        then (True, s\<lparr>k0_fu_available := k0_fu_available s - 1\<rparr>)
      else if fu_type op = 1 \<and> k1_fu_available s > 0
        then (True, s\<lparr>k1_fu_available := k1_fu_available s - 1\<rparr>)
      else if fu_type op = 2 \<and> k2_fu_available s > 0
        then (True, s\<lparr>k2_fu_available := k2_fu_available s - 1\<rparr>)
      else (False, s))"

text \<open>The chain that frees a unit in \<^verbatim>\<open>execute_stage_first_half\<close>.\<close>

definition release_fu :: "int \<Rightarrow> proc_state \<Rightarrow> proc_state" where
  "release_fu op s =
     (if fu_type op = 0 then s\<lparr>k0_fu_available := k0_fu_available s + 1\<rparr>
      else if fu_type op = 1 then s\<lparr>k1_fu_available := k1_fu_available s + 1\<rparr>
      else if fu_type op = 2 then s\<lparr>k2_fu_available := k2_fu_available s + 1\<rparr>
      else s)"

text \<open>part_000: \<^verbatim>\<open>get_counter\<close> returns a pointer to one of three counters or
  \<^verbatim>\<open>nullptr\<close>; \<^verbatim>\<open>get_fu_count\<close> returns the capacity of the class or 0.\<close>

datatype counter = K0_counter | K1_counter | K2_counter

definition get_counter :: "int \<Rightarrow> counter option" where
  "get_counter op =
     (let fu = (if op = - 1 then 1 else op) in
      if fu = 0 then Some K0_counter
      else if fu = 1 then Some K1_counter
      else if fu = 2 then Some K2_counter
      else None)"

definition get_fu_count :: "config \<Rightarrow> int \<Rightarrow> nat" where
  "get_fu_count cfg op =
     (let fu = (if op = - 1 then 1 else op) in
      if fu = 0 then K0_FU_COUNT cfg
      else if fu = 1 then K1_FU_COUNT cfg
      else if fu = 2 then K2_FU_COUNT cfg
      else 0)"

subsection \<open>Functions shared by the variants\<close>

text \<open>\<^verbatim>\<open>uint64_t rs_size = 2 * (K0_FU_COUNT + K1_FU_COUNT + K2_FU_COUNT)\<close> in \<^verbatim>\<open>setup_proc\<close>
  (the same text in procsim.cpp, part_001 and part_002): the arithmetic of \<^verbatim>\<open>uint64_t\<close>
  wraps at \<open>2^64\<close>, so pools of \<open>2^63\<close> units in all give a reservation station without a
  slot.\<close>

definition rs_size :: "config \<Rightarrow> nat" where
  "rs_size cfg = (2 * (K0_FU_COUNT cfg + K1_FU_COUNT cfg + K2_FU_COUNT cfg)) mod 2 ^ 64"

definition all_rs_empty :: "proc_state \<Rightarrow> bool" where
  "all_rs_empty s \<longleftrightarrow> (\<forall>e \<in> set (reservation_station s). \<not> valid e)"

text \<open>The loop test of \<^verbatim>\<open>run_proc\<close>:
  \<^verbatim>\<open>done = (read_instruction(NULL) == false) && dispatch_queue.empty() && all_rs_empty()\<close>.
  What the absent reader answers to a null pointer is the parameter \<open>probe\<close>, a function
  of the remaining input.\<close>

definition done_test :: "(proc_inst_t list \<Rightarrow> bool) \<Rightarrow> proc_state \<Rightarrow> bool" where
  "done_test probe s \<longleftrightarrow> \<not> probe (trace s) \<and> dispatch_queue s = [] \<and> all_rs_empty s"

section \<open>The variant of part_002\<close>

definition setup_proc_p2 :: "config \<Rightarrow> proc_inst_t list \<Rightarrow> proc_state" where
  "setup_proc_p2 cfg input =
     \<lparr>trace = input, dispatch_queue = [], reserved_slots = 0,
      reservation_station =
        replicate (rs_size cfg) rs_zero,
      result_bus_tags = [], completed_instructions = [],
      register_status = (\<lambda>_. \<lparr>tag_reg = 0, ready = True\<rparr>),
      register_ready = (\<lambda>_. True),
      register_last_state_updated = (\<lambda>_. 0),
      register_in_flight_writers = (\<lambda>_. {}),
      register_last_scheduled_writer = (\<lambda>_. 0),
      k0_fu_available = K0_FU_COUNT cfg, k1_fu_available = K1_FU_COUNT cfg,
      k2_fu_available = K2_FU_COUNT cfg,
      global_tag_counter = 1, current_cycle = 0, instructions_retired = 0,
      instruction_cycles = Map.empty, logging = []\<rparr>"

text \<open>One iteration of the loop of \<^verbatim>\<open>fetch_stage\<close>; a failed read changes nothing.\<close>

definition fetch_one_p2 :: "proc_state \<Rightarrow> proc_state" where
  "fetch_one_p2 s =
     (case trace s of
        [] \<Rightarrow> s
      | inst # rest \<Rightarrow>
          s\<lparr>trace := rest,
            global_tag_counter := global_tag_counter s + 1,
            dispatch_queue := dispatch_queue s @ [inst\<lparr>tag := global_tag_counter s\<rparr>],
            logging := logging s @ [(current_cycle s, FETCHED, global_tag_counter s)]\<rparr>)"

definition fetch_stage_p2 :: "config \<Rightarrow> proc_state \<Rightarrow> proc_state" where
  "fetch_stage_p2 cfg s = (fetch_one_p2 ^^ FETCH_RATE cfg) s"

text \<open>\<^verbatim>\<open>dispatch_stage_first_half\<close>: the body for slot \<open>i\<close>. The \<^verbatim>\<open>break\<close> on an empty queue
  is the first case: the queue stays empty for the rest of the loop.\<close>

definition dispatch_slot_p2 :: "nat \<Rightarrow> proc_state \<Rightarrow> proc_state" where
  "dispatch_slot_p2 i s =
     (case dispatch_queue s of
        [] \<Rightarrow> s
      | inst # rest \<Rightarrow>
          let e = reservation_station s ! i in
          if \<not> valid e then
            s\<lparr>reservation_station := (reservation_station s)
                 [i := e\<lparr>instruction := inst, valid := True, src1_ready := False,
                         src2_ready := False, fired := False, completed := False,
                         execute_cycles_left := 0\<rparr>],
              dispatch_queue := rest,
              logging := logging s @ [(current_cycle s, DISPATCHED, tag inst)]\<rparr>
          else s)"

definition dispatch_stage_first_half_p2 :: "proc_state \<Rightarrow> proc_state" where
  "dispatch_stage_first_half_p2 s =
     fold dispatch_slot_p2 [0..<length (reservation_station s)] s"

definition ready_instructions_p2 :: "proc_state \<Rightarrow> (nat \<times> nat) list" where
  "ready_instructions_p2 s =
     map (\<lambda>i. (tag (instruction (reservation_station s ! i)), i))
       (filter (\<lambda>i. let e = reservation_station s ! i in
                  \<not> (\<not> valid e \<or> fired e \<or> completed e) \<and> src1_ready e \<and> src2_ready e)
          [0..<length (reservation_station s)])"

text \<open>The body of the loop over the sorted candidates.\<close>

definition fire_p2 :: "nat \<times> nat \<Rightarrow> proc_state \<Rightarrow> error + proc_state" where
  "fire_p2 cand s =
     (let idx = snd cand;
          e = reservation_station s ! idx;
          (fu_available, s1) = acquire_fu (op_code (instruction e)) s
      in if fu_available then
           let s2 = s1\<lparr>reservation_station := (reservation_station s1)
                         [idx := e\<lparr>fired := True, execute_cycles_left := 1\<rparr>],
                       logging := logging s1 @
                         [(current_cycle s1, SCHEDULED, tag (instruction e))]\<rparr>
           in if dest_reg (instruction e) \<noteq> - 1 then
                if reg_ok (dest_reg (instruction e)) then
                  Inr (s2\<lparr>register_ready :=
                            (register_ready s2)(dest_reg (instruction e) := False)\<rparr>)
                else Inl IndexOutOfRange
              else Inr s2
         else Inr s1)"

fun fire_loop_p2 :: "(nat \<times> nat) list \<Rightarrow> proc_state \<Rightarrow> error + proc_state" where
  "fire_loop_p2 [] s = Inr s"
| "fire_loop_p2 (cand # rest) s = and_then (fire_p2 cand s) (fire_loop_p2 rest)"

definition schedule_stage_first_half_p2 :: "proc_state \<Rightarrow> error + proc_state" where
  "schedule_stage_first_half_p2 s = fire_loop_p2 (sort (ready_instructions_p2 s)) s"

text \<open>\<^verbatim>\<open>schedule_stage_second_half\<close>: the source flags are read from the register-ready
  array; \<^verbatim>\<open>||\<close> does not read the array for register \<open>-1\<close>.\<close>

definition read_ready_p2 :: "proc_state \<Rightarrow> int \<Rightarrow> error + bool" where
  "read_ready_p2 s r =
     (if r = - 1 then Inr True
      else if reg_ok r then Inr (register_ready s r) else Inl IndexOutOfRange)"

definition refresh_slot_p2 :: "nat \<Rightarrow> proc_state \<Rightarrow> error + proc_state" where
  "refresh_slot_p2 i s =
     (let e = reservation_station s ! i in
      if \<not> valid e \<or> fired e \<or> completed e then Inr s
      else
        and_then (read_ready_p2 s (src_reg0 (instruction e))) (\<lambda>r1.
        and_then (read_ready_p2 s (src_reg1 (instruction e))) (\<lambda>r2.
          Inr (s\<lparr>reservation_station := (reservation_station s)
                   [i := e\<lparr>src1_ready := r1, src2_ready := r2\<rparr>]\<rparr>))))"

fun refresh_loop_p2 :: "nat list \<Rightarrow> proc_state \<Rightarrow> error + proc_state" where
  "refresh_loop_p2 [] s = Inr s"
| "refresh_loop_p2 (i # rest) s = and_then (refresh_slot_p2 i s) (refresh_loop_p2 rest)"

definition schedule_stage_second_half_p2 :: "proc_state \<Rightarrow> error + proc_state" where
  "schedule_stage_second_half_p2 s =
     refresh_loop_p2 [0..<length (reservation_station s)] s"

text \<open>\<^verbatim>\<open>execute_stage_first_half\<close>, first loop: the countdown of a fired instruction.\<close>

definition complete_slot_p2 :: "nat \<Rightarrow> proc_state \<Rightarrow> proc_state" where
  "complete_slot_p2 i s =
     (let e = reservation_station s ! i in
      if valid e \<and> fired e \<and> \<not> completed e then
        if execute_cycles_left e > 0 then
          if execute_cycles_left e - 1 = 0 then
            s\<lparr>reservation_station := (reservation_station s)
                 [i := e\<lparr>execute_cycles_left := execute_cycles_left e - 1,
                         completed := True, completed_cycle := current_cycle s\<rparr>],
              logging := logging s @ [(current_cycle s, EXECUTED, tag (instruction e))]\<rparr>
          else
            s\<lparr>reservation_station := (reservation_station s)
                 [i := e\<lparr>execute_cycles_left := execute_cycles_left e - 1\<rparr>]\<rparr>
        else s
      else s)"

definition complete_phase_p2 :: "proc_state \<Rightarrow> proc_state" where
  "complete_phase_p2 s = fold complete_slot_p2 [0..<length (reservation_station s)] s"

text \<open>The completed instructions that wait for a result bus, and the order
  \<^verbatim>\<open>std::sort\<close> gives them: completion cycle first, then tag. \<open>sort_key\<close> is a stable
  sort; \<^verbatim>\<open>std::sort\<close> need not be, which shows only for two entries with the same
  completion cycle and the same tag.\<close>

definition completed_indices_p2 :: "proc_state \<Rightarrow> nat list" where
  "completed_indices_p2 s =
     filter (\<lambda>i. let e = reservation_station s ! i in
               valid e \<and> completed e \<and> \<not> state_updated e)
       [0..<length (reservation_station s)]"

definition bus_rank :: "proc_state \<Rightarrow> nat \<Rightarrow> nat \<times> nat" where
  "bus_rank s i =
     (completed_cycle (reservation_station s ! i), tag (instruction (reservation_station s ! i)))"

text \<open>The loop that puts the sorted candidates on the result bus, while
  \<^verbatim>\<open>result_bus_tags.size() < RESULT_BUSES\<close>.\<close>

fun broadcast_loop_p2 :: "config \<Rightarrow> nat list \<Rightarrow> proc_state \<Rightarrow> error + proc_state" where
  "broadcast_loop_p2 cfg [] s = Inr s"
| "broadcast_loop_p2 cfg (idx # rest) s =
     (if length (result_bus_tags s) < RESULT_BUSES cfg then
        let e = reservation_station s ! idx;
            s1 = s\<lparr>result_bus_tags := result_bus_tags s @ [tag (instruction e)]\<rparr>;
            s2 = release_fu (op_code (instruction e)) s1
        in if dest_reg (instruction e) \<noteq> - 1 then
             if reg_ok (dest_reg (instruction e)) then
               broadcast_loop_p2 cfg rest
                 (s2\<lparr>register_ready := (register_ready s2)(dest_reg (instruction e) := True)\<rparr>)
             else Inl IndexOutOfRange
           else broadcast_loop_p2 cfg rest s2
      else Inr s)"

definition broadcast_phase_p2 :: "config \<Rightarrow> proc_state \<Rightarrow> error + proc_state" where
  "broadcast_phase_p2 cfg s =
     broadcast_loop_p2 cfg (sort_key (bus_rank s) (completed_indices_p2 s)) s"

definition execute_stage_first_half_p2 :: "config \<Rightarrow> proc_state \<Rightarrow> error + proc_state" where
  "execute_stage_first_half_p2 cfg s = broadcast_phase_p2 cfg (complete_phase_p2 s)"

text \<open>\<^verbatim>\<open>state_update_stage_first_half\<close>: every tag on the result bus is logged and marks the
  first valid entry that carries it; then the bus is cleared.\<close>

definition find_slot :: "rs_entry_t list \<Rightarrow> nat \<Rightarrow> nat option" where
  "find_slot rs t =
     (case filter (\<lambda>i. valid (rs ! i) \<and> tag (instruction (rs ! i)) = t) [0..<length rs] of
        [] \<Rightarrow> None
      | i # _ \<Rightarrow> Some i)"

definition state_update_tag_p2 :: "nat \<Rightarrow> proc_state \<Rightarrow> proc_state" where
  "state_update_tag_p2 t s =
     (let s1 = s\<lparr>logging := logging s @ [(current_cycle s, STATE_UPDATE, t)]\<rparr> in
      case find_slot (reservation_station s1) t of
        None \<Rightarrow> s1
      | Some i \<Rightarrow>
          s1\<lparr>reservation_station := (reservation_station s1)
                [i := (reservation_station s1 ! i)\<lparr>state_updated := True\<rparr>]\<rparr>)"

definition state_update_stage_first_half_p2 :: "proc_state \<Rightarrow> proc_state" where
  "state_update_stage_first_half_p2 s =
     (fold state_update_tag_p2 (result_bus_tags s) s)\<lparr>result_bus_tags := []\<rparr>"

definition retire_slot_p2 :: "nat \<Rightarrow> proc_state \<Rightarrow> proc_state" where
  "retire_slot_p2 i s =
     (let e = reservation_station s ! i in
      if valid e \<and> state_updated e then
        s\<lparr>reservation_station := (reservation_station s)
             [i := e\<lparr>valid := False, state_updated := False\<rparr>],
          instructions_retired := instructions_retired s + 1\<rparr>
      else s)"

definition state_update_stage_second_half_p2 :: "proc_state \<Rightarrow> proc_state" where
  "state_update_stage_second_half_p2 s =
     fold retire_slot_p2 [0..<length (reservation_station s)] s"

text \<open>One iteration of the loop of \<^verbatim>\<open>run_proc\<close>, up to the test of \<^verbatim>\<open>done\<close>. The second
  halves of dispatch and execute are empty in part_002.\<close>

definition cycle_p2 :: "config \<Rightarrow> proc_state \<Rightarrow> error + proc_state" where
  "cycle_p2 cfg s =
     (let s0 = s\<lparr>current_cycle := current_cycle s + 1\<rparr>;
          s1 = state_update_stage_first_half_p2 s0
      in and_then (execute_stage_first_half_p2 cfg s1) (\<lambda>s2.
         and_then (schedule_stage_first_half_p2 s2) (\<lambda>s3.
           let s4 = dispatch_stage_first_half_p2 s3;
               s5 = fetch_stage_p2 cfg s4
           in and_then (schedule_stage_second_half_p2 s5) (\<lambda>s6.
                Inr (state_update_stage_second_half_p2 s6)))))"

text \<open>\<^verbatim>\<open>run_proc\<close> with a ceiling on the number of cycles: the loop body runs, then
  \<^verbatim>\<open>done\<close> is tested.\<close>

fun run_proc_p2 :: "nat \<Rightarrow> (proc_inst_t list \<Rightarrow> bool) \<Rightarrow> config \<Rightarrow> proc_state \<Rightarrow>
    error + proc_state" where
  "run_proc_p2 0 probe cfg s = Inl CycleCeiling"
| "run_proc_p2 (Suc n) probe cfg s =
     and_then (cycle_p2 cfg s) (\<lambda>s'.
       if done_test probe s' then Inr s' else run_proc_p2 n probe cfg s')"

text \<open>The state after \<open>n\<close> iterations of the loop body, without the test.\<close>

fun cycles_p2 :: "nat \<Rightarrow> config \<Rightarrow> proc_state \<Rightarrow> error + proc_state" where
  "cycles_p2 0 cfg s = Inr s"
| "cycles_p2 (Suc n) cfg s = and_then (cycle_p2 cfg s) (cycles_p2 n cfg)"

section \<open>The variant of part_001\<close>

definition setup_proc_p1 :: "config \<Rightarrow> proc_inst_t list \<Rightarrow> proc_state" where
  "setup_proc_p1 cfg input =
     \<lparr>trace = input, dispatch_queue = [], reserved_slots = 0,
      reservation_station =
        replicate (rs_size cfg) rs_zero,
      result_bus_tags = [], completed_instructions = [],
      register_status = (\<lambda>_. \<lparr>tag_reg = 0, ready = True\<rparr>),
      register_ready = (\<lambda>_. True),
      register_last_state_updated = (\<lambda>_. 0),
      register_in_flight_writers = (\<lambda>_. {}),
      register_last_scheduled_writer = (\<lambda>_. 0),
      k0_fu_available = K0_FU_COUNT cfg, k1_fu_available = K1_FU_COUNT cfg,
      k2_fu_available = K2_FU_COUNT cfg,
      global_tag_counter = 1, current_cycle = 0, instructions_retired = 0,
      instruction_cycles = Map.empty, logging = []\<rparr>"

text \<open>One iteration of the loop of \<^verbatim>\<open>fetch_stage\<close>: the fetch cycle is recorded, and the
  next cycle as the dispatch cycle.\<close>

definition fetch_one_p1 :: "proc_state \<Rightarrow> proc_state" where
  "fetch_one_p1 s =
     (case trace s of
        [] \<Rightarrow> s
      | inst # rest \<Rightarrow>
          s\<lparr>trace := rest,
            global_tag_counter := global_tag_counter s + 1,
            dispatch_queue := dispatch_queue s @ [inst\<lparr>tag := global_tag_counter s\<rparr>],
            logging := logging s @ [(current_cycle s, FETCHED, global_tag_counter s)],
            instruction_cycles :=
              stamp (global_tag_counter s) (\<lambda>c. c\<lparr>dispatch := current_cycle s + 1\<rparr>)
                (stamp (global_tag_counter s) (\<lambda>c. c\<lparr>fetch := current_cycle s\<rparr>)
                   (instruction_cycles s))\<rparr>)"

definition fetch_stage_p1 :: "config \<Rightarrow> proc_state \<Rightarrow> proc_state" where
  "fetch_stage_p1 cfg s = (fetch_one_p1 ^^ FETCH_RATE cfg) s"

text \<open>\<^verbatim>\<open>dispatch_stage_first_half\<close>: a slot is reserved for every free entry, up to the
  size of the reservation station and the length of the dispatch queue.\<close>

definition reserve_slot_p1 :: "nat \<Rightarrow> proc_state \<Rightarrow> proc_state" where
  "reserve_slot_p1 i s =
     (if \<not> valid (reservation_station s ! i)
         \<and> reserved_slots s < length (reservation_station s)
         \<and> reserved_slots s < length (dispatch_queue s)
      then s\<lparr>reserved_slots := reserved_slots s + 1\<rparr> else s)"

definition dispatch_stage_first_half_p1 :: "proc_state \<Rightarrow> proc_state" where
  "dispatch_stage_first_half_p1 s =
     fold reserve_slot_p1 [0..<length (reservation_station s)] s"

text \<open>\<^verbatim>\<open>dispatch_stage_second_half\<close>. Reading the status of a source register:
  \<^verbatim>\<open>(r == -1) || register_status[r].ready\<close> and
  \<^verbatim>\<open>(r != -1) ? register_status[r].tag : 0\<close>.\<close>

definition read_status_p1 :: "proc_state \<Rightarrow> int \<Rightarrow> error + (bool \<times> nat)" where
  "read_status_p1 s r =
     (if r = - 1 then Inr (True, 0)
      else if reg_ok r then Inr (ready (register_status s r), tag_reg (register_status s r))
      else Inl IndexOutOfRange)"

text \<open>The body of the loop for a free slot \<open>i\<close>, the queue not empty.\<close>

definition dispatch_slot_p1 :: "nat \<Rightarrow> proc_state \<Rightarrow> error + proc_state" where
  "dispatch_slot_p1 i s =
     (let inst = hd (dispatch_queue s) in
      and_then (read_status_p1 s (src_reg0 inst)) (\<lambda>(r1, p1).
      and_then (read_status_p1 s (src_reg1 inst)) (\<lambda>(r2, p2).
        let e = (reservation_station s ! i)
                  \<lparr>valid := True, instruction := inst,
                   src1_ready := r1, src2_ready := r2,
                   src1_parent := p1, src2_parent := p2,
                   fired := False, completed := False, state_updated := False,
                   execute_cycles_left := 0, completed_cycle := 0\<rparr>;
            s1 = s\<lparr>dispatch_queue := tl (dispatch_queue s),
                   reservation_station := (reservation_station s)[i := e],
                   logging := logging s @ [(current_cycle s, DISPATCHED, tag inst)],
                   instruction_cycles :=
                     stamp (tag inst) (\<lambda>c. c\<lparr>dispatch := current_cycle s\<rparr>)
                       (instruction_cycles s)\<rparr>
        in if dest_reg inst \<noteq> - 1 then
             if reg_ok (dest_reg inst) then
               Inr (s1\<lparr>register_status := (register_status s1)
                          (dest_reg inst := \<lparr>tag_reg = tag inst, ready = False\<rparr>),
                        reserved_slots := reserved_slots s1 - 1\<rparr>)
             else Inl IndexOutOfRange
           else Inr (s1\<lparr>reserved_slots := reserved_slots s1 - 1\<rparr>))))"

fun dispatch_loop_p1 :: "nat list \<Rightarrow> proc_state \<Rightarrow> error + proc_state" where
  "dispatch_loop_p1 [] s = Inr s"
| "dispatch_loop_p1 (i # rest) s =
     (if reserved_slots s = 0 \<or> dispatch_queue s = [] then Inr s
      else if \<not> valid (reservation_station s ! i)
        then and_then (dispatch_slot_p1 i s) (dispatch_loop_p1 rest)
      else dispatch_loop_p1 rest s)"

definition dispatch_stage_second_half_p1 :: "proc_state \<Rightarrow> error + proc_state" where
  "dispatch_stage_second_half_p1 s =
     dispatch_loop_p1 [0..<length (reservation_station s)] s"

text \<open>\<^verbatim>\<open>schedule_stage_first_half\<close>: the entries are visited in the order of the slots.\<close>

definition fire_slot_p1 :: "nat \<Rightarrow> proc_state \<Rightarrow> proc_state" where
  "fire_slot_p1 i s =
     (let e = reservation_station s ! i in
      if \<not> valid e \<or> fired e then s
      else if src1_ready e \<and> src2_ready e then
        let (fu_available, s1) = acquire_fu (op_code (instruction e)) s in
        if fu_available then
          s1\<lparr>reservation_station := (reservation_station s1)[i := e\<lparr>fired := True\<rparr>],
             logging := logging s1 @ [(current_cycle s1, SCHEDULED, tag (instruction e))],
             instruction_cycles :=
               stamp (tag (instruction e)) (\<lambda>c. c\<lparr>schedule := current_cycle s1\<rparr>)
                 (instruction_cycles s1)\<rparr>
        else s1
      else s)"

definition schedule_stage_first_half_p1 :: "proc_state \<Rightarrow> proc_state" where
  "schedule_stage_first_half_p1 s =
     fold fire_slot_p1 [0..<length (reservation_station s)] s"

text \<open>\<^verbatim>\<open>schedule_stage_second_half\<close>: the inner loop over the tags on the result bus.\<close>

definition wake_tag_p1 :: "nat \<Rightarrow> rs_entry_t \<Rightarrow> rs_entry_t" where
  "wake_tag_p1 t e =
     (let e1 = (if \<not> src1_ready e \<and> src1_parent e = t then e\<lparr>src1_ready := True\<rparr> else e)
      in if \<not> src2_ready e1 \<and> src2_parent e1 = t then e1\<lparr>src2_ready := True\<rparr> else e1)"

definition wake_slot_p1 :: "nat \<Rightarrow> proc_state \<Rightarrow> proc_state" where
  "wake_slot_p1 i s =
     (let e = reservation_station s ! i in
      if \<not> valid e \<or> fired e then s
      else s\<lparr>reservation_station := (reservation_station s)
                [i := fold wake_tag_p1 (result_bus_tags s) e]\<rparr>)"

definition schedule_stage_second_half_p1 :: "proc_state \<Rightarrow> proc_state" where
  "schedule_stage_second_half_p1 s =
     fold wake_slot_p1 [0..<length (reservation_station s)] s"

text \<open>\<^verbatim>\<open>execute_stage_first_half\<close>, first loop: every fired entry completes and joins the
  queue of completed instructions.\<close>

definition complete_slot_p1 :: "nat \<Rightarrow> proc_state \<Rightarrow> proc_state" where
  "complete_slot_p1 i s =
     (let e = reservation_station s ! i in
      if \<not> valid e \<or> \<not> fired e \<or> completed e then s
      else
        s\<lparr>reservation_station := (reservation_station s)
             [i := e\<lparr>completed := True, completed_cycle := current_cycle s\<rparr>],
          completed_instructions := completed_instructions s @ [i],
          logging := logging s @ [(current_cycle s, EXECUTED, tag (instruction e))],
          instruction_cycles :=
            stamp (tag (instruction e)) (\<lambda>c. c\<lparr>execute := current_cycle s\<rparr>)
              (instruction_cycles s)\<rparr>)"

definition complete_phase_p1 :: "proc_state \<Rightarrow> proc_state" where
  "complete_phase_p1 s = fold complete_slot_p1 [0..<length (reservation_station s)] s"

text \<open>Second loop: \<^verbatim>\<open>while (broadcasts < RESULT_BUSES && !completed_instructions.empty())\<close>.
  The first argument is the number of buses still free, \<^verbatim>\<open>RESULT_BUSES - broadcasts\<close>.
  A slot number outside the reservation station cannot come from a pointer of the
  program; the model answers it with the error.\<close>

fun broadcast_loop_p1 :: "nat \<Rightarrow> proc_state \<Rightarrow> error + proc_state" where
  "broadcast_loop_p1 0 s = Inr s"
| "broadcast_loop_p1 (Suc n) s =
     (case completed_instructions s of
        [] \<Rightarrow> Inr s
      | p # rest \<Rightarrow>
          if p < length (reservation_station s) then
            let e = reservation_station s ! p;
                d = dest_reg (instruction e);
                s1 = s\<lparr>completed_instructions := rest,
                       result_bus_tags := result_bus_tags s @ [tag (instruction e)],
                       reservation_station := (reservation_station s)
                         [p := e\<lparr>state_updated := True,
                                 state_update_cycle := current_cycle s\<rparr>]\<rparr>
            in if d \<noteq> - 1 then
                 if reg_ok d then
                   broadcast_loop_p1 n
                     (release_fu (op_code (instruction e))
                        (if tag_reg (register_status s1 d) = tag (instruction e)
                         then s1\<lparr>register_status := (register_status s1)
                                   (d := (register_status s1 d)\<lparr>ready := True\<rparr>)\<rparr>
                         else s1))
                 else Inl IndexOutOfRange
               else broadcast_loop_p1 n (release_fu (op_code (instruction e)) s1)
          else Inl IndexOutOfRange)"

definition broadcast_phase_p1 :: "config \<Rightarrow> proc_state \<Rightarrow> error + proc_state" where
  "broadcast_phase_p1 cfg s = broadcast_loop_p1 (RESULT_BUSES cfg) (s\<lparr>result_bus_tags := []\<rparr>)"

definition execute_stage_first_half_p1 :: "config \<Rightarrow> proc_state \<Rightarrow> error + proc_state" where
  "execute_stage_first_half_p1 cfg s = broadcast_phase_p1 cfg (complete_phase_p1 s)"

text \<open>\<^verbatim>\<open>state_update_stage_second_half\<close>.\<close>

definition retire_slot_p1 :: "nat \<Rightarrow> proc_state \<Rightarrow> proc_state" where
  "retire_slot_p1 i s =
     (let e = reservation_station s ! i in
      if valid e \<and> state_updated e \<and> state_update_cycle e < current_cycle s then
        s\<lparr>reservation_station := (reservation_station s)
             [i := e\<lparr>valid := False, state_updated := False\<rparr>],
          instructions_retired := instructions_retired s + 1,
          logging := logging s @ [(current_cycle s, STATE_UPDATE, tag (instruction e))]\<rparr>
      else s)"

definition state_update_stage_second_half_p1 :: "proc_state \<Rightarrow> proc_state" where
  "state_update_stage_second_half_p1 s =
     fold retire_slot_p1 [0..<length (reservation_station s)] s"

text \<open>One iteration of the loop of \<^verbatim>\<open>run_proc\<close>, up to the test of \<^verbatim>\<open>done\<close>: the first
  halves of execute, schedule and dispatch, then the second halves of state update,
  schedule and dispatch, then fetch. The first half of state update and the second half
  of execute are empty in part_001.\<close>

definition cycle_p1 :: "config \<Rightarrow> proc_state \<Rightarrow> error + proc_state" where
  "cycle_p1 cfg s =
     (let s0 = s\<lparr>current_cycle := current_cycle s + 1\<rparr> in
      and_then (execute_stage_first_half_p1 cfg s0) (\<lambda>s1.
        let s2 = schedule_stage_first_half_p1 s1;
            s3 = dispatch_stage_first_half_p1 s2;
            s4 = state_update_stage_second_half_p1 s3;
            s5 = schedule_stage_second_half_p1 s4
        in and_then (dispatch_stage_second_half_p1 s5) (\<lambda>s6.
             Inr (fetch_stage_p1 cfg s6))))"

fun run_proc_p1 :: "nat \<Rightarrow> (proc_inst_t list \<Rightarrow> bool) \<Rightarrow> config \<Rightarrow> proc_state \<Rightarrow>
    error + proc_state" where
  "run_proc_p1 0 probe cfg s = Inl CycleCeiling"
| "run_proc_p1 (Suc n) probe cfg s =
     and_then (cycle_p1 cfg s) (\<lambda>s'.
       if done_test probe s' then Inr s' else run_proc_p1 n probe cfg s')"

fun cycles_p1 :: "nat \<Rightarrow> config \<Rightarrow> proc_state \<Rightarrow> error + proc_state" where
  "cycles_p1 0 cfg s = Inr s"
| "cycles_p1 (Suc n) cfg s = and_then (cycle_p1 cfg s) (cycles_p1 n cfg)"

section \<open>The variant of procsim.cpp\<close>

text \<open>The second document of \<^verbatim>\<open>src/procsim.cpp\<close>. The lines \<^verbatim>\<open>LAST_STATE_UPDATED\<close> and
  \<^verbatim>\<open>IN_FLIGHT_WRITER\<close> that its fire phase prints are not among the events of \<open>logging\<close>.\<close>

definition setup_proc_ps :: "config \<Rightarrow> proc_inst_t list \<Rightarrow> proc_state" where
  "setup_proc_ps cfg input =
     \<lparr>trace = input, dispatch_queue = [], reserved_slots = 0,
      reservation_station =
        replicate (rs_size cfg) rs_zero,
      result_bus_tags = [], completed_instructions = [],
      register_status = (\<lambda>_. \<lparr>tag_reg = 0, ready = True\<rparr>),
      register_ready = (\<lambda>_. True),
      register_last_state_updated = (\<lambda>_. 0),
      register_in_flight_writers = (\<lambda>_. {}),
      register_last_scheduled_writer = (\<lambda>_. 0),
      k0_fu_available = K0_FU_COUNT cfg, k1_fu_available = K1_FU_COUNT cfg,
      k2_fu_available = K2_FU_COUNT cfg,
      global_tag_counter = 1, current_cycle = 0, instructions_retired = 0,
      instruction_cycles = Map.empty, logging = []\<rparr>"

text \<open>One iteration of the loop of \<^verbatim>\<open>fetch_stage\<close>; a failed read changes nothing, and
  the loop has no \<^verbatim>\<open>break\<close>.\<close>

definition fetch_one_ps :: "proc_state \<Rightarrow> proc_state" where
  "fetch_one_ps s =
     (case trace s of
        [] \<Rightarrow> s
      | inst # rest \<Rightarrow>
          s\<lparr>trace := rest,
            global_tag_counter := global_tag_counter s + 1,
            dispatch_queue := dispatch_queue s @ [inst\<lparr>tag := global_tag_counter s\<rparr>],
            logging := logging s @ [(current_cycle s, FETCHED, global_tag_counter s)],
            instruction_cycles :=
              stamp (global_tag_counter s)
                (\<lambda>c. c\<lparr>fetch := current_cycle s, dispatch := current_cycle s + 1\<rparr>)
                (instruction_cycles s)\<rparr>)"

definition fetch_stage_ps :: "config \<Rightarrow> proc_state \<Rightarrow> proc_state" where
  "fetch_stage_ps cfg s = (fetch_one_ps ^^ FETCH_RATE cfg) s"

text \<open>\<^verbatim>\<open>dispatch_stage_first_half\<close>: the body for slot \<open>i\<close>. The \<^verbatim>\<open>break\<close> on an empty queue
  is the first case: the queue stays empty for the rest of the loop. The tag of an
  instruction with a destination joins the in-flight writers of that register.\<close>

definition dispatch_slot_ps :: "nat \<Rightarrow> proc_state \<Rightarrow> error + proc_state" where
  "dispatch_slot_ps i s =
     (case dispatch_queue s of
        [] \<Rightarrow> Inr s
      | inst # rest \<Rightarrow>
          let e = reservation_station s ! i in
          if \<not> valid e then
            let s1 = s\<lparr>reservation_station := (reservation_station s)
                         [i := e\<lparr>instruction := inst, valid := True, src1_ready := False,
                                 src2_ready := False, fired := False, completed := False,
                                 execute_cycles_left := 0, state_updated := False\<rparr>],
                       instruction_cycles :=
                         stamp (tag inst) (\<lambda>c. c\<lparr>schedule := current_cycle s + 1\<rparr>)
                           (instruction_cycles s)\<rparr>;
                s2 = (if dest_reg inst \<noteq> - 1 then
                        if reg_ok (dest_reg inst) then
                          Inr (s1\<lparr>register_in_flight_writers :=
                                 (register_in_flight_writers s1)
                                 (dest_reg inst :=
                                    insert (tag inst)
                                      (register_in_flight_writers s1 (dest_reg inst)))\<rparr>)
                        else Inl IndexOutOfRange
                      else Inr s1)
            in and_then s2 (\<lambda>s3.
                 Inr (s3\<lparr>dispatch_queue := rest,
                         logging := logging s3 @ [(current_cycle s3, DISPATCHED, tag inst)]\<rparr>))
          else Inr s)"

fun dispatch_loop_ps :: "nat list \<Rightarrow> proc_state \<Rightarrow> error + proc_state" where
  "dispatch_loop_ps [] s = Inr s"
| "dispatch_loop_ps (i # rest) s = and_then (dispatch_slot_ps i s) (dispatch_loop_ps rest)"

definition dispatch_stage_first_half_ps :: "proc_state \<Rightarrow> error + proc_state" where
  "dispatch_stage_first_half_ps s =
     dispatch_loop_ps [0..<length (reservation_station s)] s"

text \<open>\<^verbatim>\<open>schedule_stage_first_half\<close>, the test of one source register \<open>r\<close> of the instruction
  with tag \<open>t\<close>. The two copies of this text (for \<^verbatim>\<open>src_reg[0]\<close> and \<^verbatim>\<open>src_reg[1]\<close>)
  compute the same value: the second copy first assigns \<^verbatim>\<open>false\<close> and then overwrites
  it in both branches.\<close>

definition source_ready_ps :: "proc_state \<Rightarrow> nat \<Rightarrow> int \<Rightarrow> error + bool" where
  "source_ready_ps s t r =
     (if r = - 1 then Inr True
      else if \<not> reg_ok r then Inl IndexOutOfRange
      else
        let last_state_updated = register_last_state_updated s r;
            writers = register_in_flight_writers s r
        in Inr (if last_state_updated \<ge> t then
                  \<not> (\<exists>w\<in>writers. w < t \<and> w < last_state_updated)
                else if writers = {} \<or> last_state_updated \<ge> Max writers then True
                else \<not> (\<exists>w\<in>writers. w > last_state_updated \<and> w < t)))"

text \<open>The first loop: the pairs (tag, slot) of the entries that may fire, in slot order.\<close>

fun ready_instructions_ps :: "nat list \<Rightarrow> proc_state \<Rightarrow> error + (nat \<times> nat) list" where
  "ready_instructions_ps [] s = Inr []"
| "ready_instructions_ps (i # rest) s =
     (let e = reservation_station s ! i in
      if \<not> valid e \<or> fired e \<or> completed e then ready_instructions_ps rest s
      else
        and_then (source_ready_ps s (tag (instruction e)) (src_reg0 (instruction e)))
          (\<lambda>src1_ready.
        and_then (source_ready_ps s (tag (instruction e)) (src_reg1 (instruction e)))
          (\<lambda>src2_ready.
        and_then (ready_instructions_ps rest s) (\<lambda>more.
          Inr ((if src1_ready \<and> src2_ready then [(tag (instruction e), i)] else [])
               @ more)))))"

text \<open>The body of the loop over the sorted candidates.\<close>

definition fire_ps :: "nat \<times> nat \<Rightarrow> proc_state \<Rightarrow> error + proc_state" where
  "fire_ps cand s =
     (let idx = snd cand;
          e = reservation_station s ! idx;
          (fu_available, s1) = acquire_fu (op_code (instruction e)) s
      in if fu_available then
           let s2 = s1\<lparr>reservation_station := (reservation_station s1)
                         [idx := e\<lparr>fired := True, execute_cycles_left := 1\<rparr>],
                       logging := logging s1 @
                         [(current_cycle s1, SCHEDULED, tag (instruction e))]\<rparr>
           in if dest_reg (instruction e) \<noteq> - 1 then
                if reg_ok (dest_reg (instruction e)) then
                  Inr (s2\<lparr>register_ready :=
                            (register_ready s2)(dest_reg (instruction e) := False),
                          register_last_scheduled_writer :=
                            (register_last_scheduled_writer s2)
                            (dest_reg (instruction e) := tag (instruction e))\<rparr>)
                else Inl IndexOutOfRange
              else Inr s2
         else Inr s1)"

fun fire_loop_ps :: "(nat \<times> nat) list \<Rightarrow> proc_state \<Rightarrow> error + proc_state" where
  "fire_loop_ps [] s = Inr s"
| "fire_loop_ps (cand # rest) s = and_then (fire_ps cand s) (fire_loop_ps rest)"

definition schedule_stage_first_half_ps :: "proc_state \<Rightarrow> error + proc_state" where
  "schedule_stage_first_half_ps s =
     and_then (ready_instructions_ps [0..<length (reservation_station s)] s)
       (\<lambda>ready_instructions. fire_loop_ps (sort ready_instructions) s)"

text \<open>\<^verbatim>\<open>execute_stage_first_half\<close>, first loop: the countdown of a fired instruction.
  The events are printed afterwards.\<close>

definition complete_entry_ps :: "nat \<Rightarrow> rs_entry_t \<Rightarrow> rs_entry_t" where
  "complete_entry_ps c e =
     (if valid e \<and> fired e \<and> \<not> completed e then
        if execute_cycles_left e > 0 then
          if execute_cycles_left e - 1 = 0 then
            e\<lparr>execute_cycles_left := execute_cycles_left e - 1,
              completed := True, completed_cycle := c\<rparr>
          else e\<lparr>execute_cycles_left := execute_cycles_left e - 1\<rparr>
        else e
      else e)"

definition completing_indices_ps :: "proc_state \<Rightarrow> nat list" where
  "completing_indices_ps s =
     filter (\<lambda>i. let e = reservation_station s ! i in
               valid e \<and> fired e \<and> \<not> completed e \<and> execute_cycles_left e > 0
               \<and> execute_cycles_left e - 1 = 0)
       [0..<length (reservation_station s)]"

text \<open>The order of the printed \<^verbatim>\<open>EXECUTED\<close> events: unit class first, then tag.\<close>

definition executed_rank :: "proc_state \<Rightarrow> nat \<Rightarrow> int \<times> nat" where
  "executed_rank s i =
     (fu_type (op_code (instruction (reservation_station s ! i))),
      tag (instruction (reservation_station s ! i)))"

definition executed_event_ps :: "nat \<Rightarrow> proc_state \<Rightarrow> proc_state" where
  "executed_event_ps idx s =
     s\<lparr>logging := logging s @
          [(current_cycle s, EXECUTED, tag (instruction (reservation_station s ! idx)))],
       instruction_cycles :=
         stamp (tag (instruction (reservation_station s ! idx)))
           (\<lambda>c. c\<lparr>execute := current_cycle s\<rparr>) (instruction_cycles s)\<rparr>"

definition complete_phase_ps :: "proc_state \<Rightarrow> proc_state" where
  "complete_phase_ps s =
     (let s1 = s\<lparr>reservation_station :=
                   map (complete_entry_ps (current_cycle s)) (reservation_station s)\<rparr>
      in fold executed_event_ps (sort_key (executed_rank s1) (completing_indices_ps s)) s1)"

text \<open>The loop that puts the sorted candidates on the result bus, \<open>buses_used\<close> counting
  them. The candidates and their order are those of part_002.\<close>

fun broadcast_loop_ps :: "config \<Rightarrow> nat \<Rightarrow> nat list \<Rightarrow> proc_state \<Rightarrow> proc_state" where
  "broadcast_loop_ps cfg buses_used [] s = s"
| "broadcast_loop_ps cfg buses_used (idx # rest) s =
     (if buses_used \<ge> RESULT_BUSES cfg then s
      else
        let e = reservation_station s ! idx;
            s1 = s\<lparr>result_bus_tags := result_bus_tags s @ [tag (instruction e)]\<rparr>
        in broadcast_loop_ps cfg (buses_used + 1) rest (release_fu (op_code (instruction e)) s1))"

definition broadcast_phase_ps :: "config \<Rightarrow> proc_state \<Rightarrow> proc_state" where
  "broadcast_phase_ps cfg s =
     broadcast_loop_ps cfg 0 (sort_key (bus_rank s) (completed_indices_p2 s)) s"

definition execute_stage_first_half_ps :: "config \<Rightarrow> proc_state \<Rightarrow> proc_state" where
  "execute_stage_first_half_ps cfg s = broadcast_phase_ps cfg (complete_phase_ps s)"

text \<open>\<^verbatim>\<open>state_update_stage_first_half\<close>: the tags on the bus that a valid entry carries,
  each with the completion cycle of the first such entry.\<close>

definition tag_with_completion_ps :: "proc_state \<Rightarrow> (nat \<times> nat) list" where
  "tag_with_completion_ps s =
     concat (map (\<lambda>t. case find_slot (reservation_station s) t of
                        None \<Rightarrow> []
                      | Some i \<Rightarrow> [(t, completed_cycle (reservation_station s ! i))])
               (result_bus_tags s))"

text \<open>The body of the loop over the sorted pairs: the entry is marked; the register of
  its destination records the tag as state-updated, drops it from the in-flight writers,
  and becomes ready if the tag is the last scheduled writer.\<close>

definition state_update_tag_ps :: "nat \<Rightarrow> proc_state \<Rightarrow> error + proc_state" where
  "state_update_tag_ps t s =
     (let s1 = s\<lparr>logging := logging s @ [(current_cycle s, STATE_UPDATE, t)],
                 instruction_cycles :=
                   stamp t (\<lambda>c. c\<lparr>state_update := current_cycle s\<rparr>) (instruction_cycles s)\<rparr>
      in case find_slot (reservation_station s1) t of
           None \<Rightarrow> Inr s1
         | Some i \<Rightarrow>
             let e = reservation_station s1 ! i;
                 s2 = s1\<lparr>reservation_station := (reservation_station s1)
                            [i := e\<lparr>state_updated := True\<rparr>]\<rparr>;
                 d = dest_reg (instruction e)
             in if d \<noteq> - 1 then
                  if reg_ok d then
                    let s3 = s2\<lparr>register_last_state_updated :=
                                  (register_last_state_updated s2)
                                  (d := (if t > register_last_state_updated s2 d then t
                                         else register_last_state_updated s2 d)),
                                register_in_flight_writers :=
                                  (register_in_flight_writers s2)
                                  (d := register_in_flight_writers s2 d - {t})\<rparr>
                    in Inr (if register_last_scheduled_writer s3 d = t then
                              s3\<lparr>register_ready := (register_ready s3)(d := True),
                                 register_last_scheduled_writer :=
                                   (register_last_scheduled_writer s3)(d := 0)\<rparr>
                            else s3)
                  else Inl IndexOutOfRange
                else Inr s2)"

fun state_update_loop_ps :: "(nat \<times> nat) list \<Rightarrow> proc_state \<Rightarrow> error + proc_state" where
  "state_update_loop_ps [] s = Inr s"
| "state_update_loop_ps (p # rest) s =
     and_then (state_update_tag_ps (fst p) s) (state_update_loop_ps rest)"

definition state_update_stage_first_half_ps :: "proc_state \<Rightarrow> error + proc_state" where
  "state_update_stage_first_half_ps s =
     and_then
       (state_update_loop_ps (sort_key (\<lambda>p. (snd p, fst p)) (tag_with_completion_ps s)) s)
       (\<lambda>s1. Inr (s1\<lparr>result_bus_tags := []\<rparr>))"

text \<open>One iteration of the loop of \<^verbatim>\<open>run_proc\<close>, up to the test of \<^verbatim>\<open>done\<close>.
  \<^verbatim>\<open>schedule_stage_second_half\<close> and \<^verbatim>\<open>state_update_stage_second_half\<close> have the text of
  part_002; the second halves of dispatch and execute are empty.\<close>

definition cycle_ps :: "config \<Rightarrow> proc_state \<Rightarrow> error + proc_state" where
  "cycle_ps cfg s =
     (let s0 = s\<lparr>current_cycle := current_cycle s + 1\<rparr>
      in and_then (state_update_stage_first_half_ps s0) (\<lambda>s1.
         let s2 = execute_stage_first_half_ps cfg s1
         in and_then (schedule_stage_first_half_ps s2) (\<lambda>s3.
            and_then (dispatch_stage_first_half_ps s3) (\<lambda>s4.
              let s5 = fetch_stage_ps cfg s4
              in and_then (schedule_stage_second_half_p2 s5) (\<lambda>s6.
                   Inr (state_update_stage_second_half_p2 s6))))))"

text \<open>\<^verbatim>\<open>run_proc\<close> with a ceiling on the number of cycles: the loop body runs, then
  \<^verbatim>\<open>done\<close> is tested.\<close>

fun run_proc_ps :: "nat \<Rightarrow> (proc_inst_t list \<Rightarrow> bool) \<Rightarrow> config \<Rightarrow> proc_state \<Rightarrow>
    error + proc_state" where
  "run_proc_ps 0 probe cfg s = Inl CycleCeiling"
| "run_proc_ps (Suc n) probe cfg s =
     and_then (cycle_ps cfg s) (\<lambda>s'.
       if done_test probe s' then Inr s' else run_proc_ps n probe cfg s')"

text \<open>The state after \<open>n\<close> iterations of the loop body, without the test.\<close>

fun cycles_ps :: "nat \<Rightarrow> config \<Rightarrow> proc_state \<Rightarrow> error + proc_state" where
  "cycles_ps 0 cfg s = Inr s"
| "cycles_ps (Suc n) cfg s = and_then (cycle_ps cfg s) (cycles_ps n cfg)"

section \<open>Observations and test inputs\<close>

definition insn :: "int \<Rightarrow> int \<Rightarrow> int \<Rightarrow> int \<Rightarrow> proc_inst_t" where
  "insn op s0 s1 d = \<lparr>instruction_address = 0, op_code = op, src_reg0 = s0, src_reg1 = s1,
     dest_reg = d, tag = 0\<rparr>"

text \<open>What is seen of a slot: occupied, tag, opcode, both sources ready, fired.\<close>

definition slot_view :: "rs_entry_t \<Rightarrow> bool \<times> nat \<times> int \<times> bool \<times> bool" where
  "slot_view e = (valid e, tag (instruction e), op_code (instruction e),
     src1_ready e \<and> src2_ready e, fired e)"

definition slots_after :: "error + proc_state \<Rightarrow> (bool \<times> nat \<times> int \<times> bool \<times> bool) list" where
  "slots_after r = (case r of Inl e \<Rightarrow> [] | Inr s \<Rightarrow> map slot_view (reservation_station s))"

definition log_of :: "error + proc_state \<Rightarrow> event list" where
  "log_of r = (case r of Inl e \<Rightarrow> [] | Inr s \<Rightarrow> logging s)"

text \<open>The cycles at which the log shows event \<open>k\<close> for tag \<open>t\<close>.\<close>

definition stamps :: "event_kind \<Rightarrow> nat \<Rightarrow> event list \<Rightarrow> nat list" where
  "stamps k t evs = map fst (filter (\<lambda>(c, k', t'). k' = k \<and> t' = t) evs)"

text \<open>The free units of the class an opcode maps to; no class, no unit.\<close>

definition class_free :: "int \<Rightarrow> proc_state \<Rightarrow> nat" where
  "class_free op s =
     (if op = 0 then k0_fu_available s
      else if op = 1 \<or> op = - 1 then k1_fu_available s
      else if op = 2 then k2_fu_available s
      else 0)"

definition cfg_unit :: config where
  "cfg_unit = \<lparr>RESULT_BUSES = 1, K0_FU_COUNT = 1, K1_FU_COUNT = 1, K2_FU_COUNT = 1,
     FETCH_RATE = 1\<rparr>"

text \<open>Three chained instructions of class 1 keep an instruction of class 0 (tag 4, last
  slot) waiting while two younger independent instructions of class 0 pass through the
  slots freed in front of it.\<close>

definition cfg_order :: config where
  "cfg_order = \<lparr>RESULT_BUSES = 2, K0_FU_COUNT = 1, K1_FU_COUNT = 1, K2_FU_COUNT = 0,
     FETCH_RATE = 4\<rparr>"

definition prog_order :: "proc_inst_t list" where
  "prog_order = [insn 1 (- 1) (- 1) 1, insn 1 1 (- 1) 2, insn 1 2 (- 1) 3, insn 0 3 (- 1) (- 1),
     insn 0 (- 1) (- 1) (- 1), insn 0 (- 1) (- 1) (- 1)]"

text \<open>Two writers of register 1 in different classes, one result bus.\<close>

definition cfg_writers :: config where
  "cfg_writers = \<lparr>RESULT_BUSES = 1, K0_FU_COUNT = 1, K1_FU_COUNT = 1, K2_FU_COUNT = 0,
     FETCH_RATE = 2\<rparr>"

definition prog_writers :: "proc_inst_t list" where
  "prog_writers = [insn 0 (- 1) (- 1) 1, insn 1 (- 1) (- 1) 1]"

definition writers_view :: "error + proc_state \<Rightarrow> nat list \<times> (bool \<times> nat \<times> int \<times> bool) list" where
  "writers_view r =
     (case r of Inl e \<Rightarrow> ([], [])
      | Inr s \<Rightarrow> (result_bus_tags s,
          map (\<lambda>e. (valid e, tag (instruction e), dest_reg (instruction e), completed e))
            (reservation_station s)))"

text \<open>A writer of register 5 and a reader of register 5 in different classes.\<close>

definition cfg_pair :: config where
  "cfg_pair = \<lparr>RESULT_BUSES = 1, K0_FU_COUNT = 1, K1_FU_COUNT = 1, K2_FU_COUNT = 1,
     FETCH_RATE = 2\<rparr>"

definition prog_pair :: "proc_inst_t list" where
  "prog_pair = [insn 0 (- 1) (- 1) 5, insn 1 5 (- 1) (- 1)]"

text \<open>The reader's answer to a null pointer, when it tells whether input remains.\<close>

definition more_input :: "proc_inst_t list \<Rightarrow> bool" where
  "more_input t \<longleftrightarrow> t \<noteq> []"

definition complete_entry_p1 :: "nat \<Rightarrow> rs_entry_t \<Rightarrow> rs_entry_t" where
  "complete_entry_p1 c e =
     (if \<not> valid e \<or> \<not> fired e \<or> completed e then e
      else e\<lparr>completed := True, completed_cycle := c\<rparr>)"

definition retire_entry_p1 :: "nat \<Rightarrow> rs_entry_t \<Rightarrow> rs_entry_t" where
  "retire_entry_p1 c e =
     (if valid e \<and> state_updated e \<and> state_update_cycle e < c
      then e\<lparr>valid := False, state_updated := False\<rparr> else e)"

definition wake_entry_p1 :: "nat list \<Rightarrow> rs_entry_t \<Rightarrow> rs_entry_t" where
  "wake_entry_p1 bus e = (if \<not> valid e \<or> fired e then e else fold wake_tag_p1 bus e)"

definition fire_rel :: "rs_entry_t \<Rightarrow> rs_entry_t \<Rightarrow> bool" where
  "fire_rel e e' \<longleftrightarrow>
     e' = e \<or> (valid e \<and> \<not> fired e \<and> src1_ready e \<and> src2_ready e \<and> e' = e\<lparr>fired := True\<rparr>)"

definition broadcast_entry_p1 :: "nat \<Rightarrow> rs_entry_t \<Rightarrow> rs_entry_t" where
  "broadcast_entry_p1 c e = e\<lparr>state_updated := True, state_update_cycle := c\<rparr>"


definition dispatch_entry_p1 :: "(int \<Rightarrow> RegisterStatus) \<Rightarrow> proc_inst_t \<Rightarrow> rs_entry_t \<Rightarrow> rs_entry_t" where
  "dispatch_entry_p1 regs inst e =
     e\<lparr>valid := True, instruction := inst,
       src1_ready := (src_reg0 inst = - 1 \<or> ready (regs (src_reg0 inst))),
       src2_ready := (src_reg1 inst = - 1 \<or> ready (regs (src_reg1 inst))),
       src1_parent := (if src_reg0 inst = - 1 then 0 else tag_reg (regs (src_reg0 inst))),
       src2_parent := (if src_reg1 inst = - 1 then 0 else tag_reg (regs (src_reg1 inst))),
       fired := False, completed := False, state_updated := False,
       execute_cycles_left := 0, completed_cycle := 0\<rparr>"


definition awaits_p1 :: "proc_state \<Rightarrow> nat \<Rightarrow> nat \<Rightarrow> bool" where
  "awaits_p1 s i p \<longleftrightarrow>
     i < length (reservation_station s)
     \<and> i \<notin> set (completed_instructions s)
     \<and> (let e = reservation_station s ! i in
          valid e \<and> \<not> fired e \<and> \<not> state_updated e
          \<and> ((\<not> src1_ready e \<and> src1_parent e = p) \<or> (\<not> src2_ready e \<and> src2_parent e = p)))"


definition pair_dispatched_p1 :: proc_state where
  "pair_dispatched_p1 = projr (cycles_p1 2 cfg_pair (setup_proc_p1 cfg_pair prog_pair))"


text \<open>The state in which the broadcast loop of part_002 runs, in the cycle that starts in
  state \<open>s\<close>.\<close>

definition before_broadcast_p2 :: "proc_state \<Rightarrow> proc_state" where
  "before_broadcast_p2 s =
     complete_phase_p2 (state_update_stage_first_half_p2 (s\<lparr>current_cycle := current_cycle s + 1\<rparr>))"

definition writers_fired_p2 :: proc_state where
  "writers_fired_p2 = projr (cycles_p2 3 cfg_writers (setup_proc_p2 cfg_writers prog_writers))"

text \<open>The precondition on an instruction of the input, and the condition on a state under
  which no stage of part_001 leaves the register status table.\<close>

definition regs_ok :: "proc_inst_t \<Rightarrow> bool" where
  "regs_ok i \<longleftrightarrow>
     (src_reg0 i = - 1 \<or> reg_ok (src_reg0 i))
     \<and> (src_reg1 i = - 1 \<or> reg_ok (src_reg1 i))
     \<and> (dest_reg i = - 1 \<or> reg_ok (dest_reg i))"

definition in_bounds_p1 :: "proc_state \<Rightarrow> bool" where
  "in_bounds_p1 s \<longleftrightarrow>
     (\<forall>i\<in>set (trace s). regs_ok i)
     \<and> (\<forall>i\<in>set (dispatch_queue s). regs_ok i)
     \<and> (\<forall>e\<in>set (reservation_station s). regs_ok (instruction e))
     \<and> (\<forall>p\<in>set (completed_instructions s). p < length (reservation_station s))"

definition in_bounds_p2 :: "proc_state \<Rightarrow> bool" where
  "in_bounds_p2 s \<longleftrightarrow>
     (\<forall>i\<in>set (trace s). regs_ok i)
     \<and> (\<forall>i\<in>set (dispatch_queue s). regs_ok i)
     \<and> (\<forall>e\<in>set (reservation_station s). regs_ok (instruction e))"


subsection \<open>Notions for the termination of the loop of procsim.cpp\<close>



definition fu_available :: "int \<Rightarrow> proc_state \<Rightarrow> nat" where
  "fu_available k s =
     (if k = 0 then k0_fu_available s
      else if k = 1 then k1_fu_available s
      else if k = 2 then k2_fu_available s
      else 0)"






text \<open>Occupied slots carry different tags; the tags of the queue ascend, lie above those of
  the reservation station and below the tag counter.\<close>

definition tags_distinct :: "rs_entry_t list \<Rightarrow> bool" where
  "tags_distinct rs \<longleftrightarrow>
     (\<forall>i<length rs. \<forall>j<length rs.
        valid (rs ! i) \<and> valid (rs ! j)
        \<and> tag (instruction (rs ! i)) = tag (instruction (rs ! j)) \<longrightarrow> i = j)"









text \<open>What the stages before fetch and dispatch leave alone.\<close>

definition same_front :: "proc_state \<Rightarrow> proc_state \<Rightarrow> bool" where
  "same_front s t \<longleftrightarrow>
     trace t = trace s \<and> dispatch_queue t = dispatch_queue s
     \<and> global_tag_counter t = global_tag_counter s
     \<and> instructions_retired t = instructions_retired s
     \<and> current_cycle t = current_cycle s"




text \<open>What the first half of the state update does to an entry, given the tags on the bus;
  one iteration of the broadcast loop; the entry that dispatch writes into a free slot;
  no occupied slot is marked.\<close>

definition mark_entry :: "nat set \<Rightarrow> rs_entry_t \<Rightarrow> rs_entry_t" where
  "mark_entry T e =
     (if valid e \<and> tag (instruction e) \<in> T then e\<lparr>state_updated := True\<rparr> else e)"

definition put_on_bus :: "nat \<Rightarrow> proc_state \<Rightarrow> proc_state" where
  "put_on_bus idx s =
     release_fu (op_code (instruction (reservation_station s ! idx)))
       (s\<lparr>result_bus_tags :=
            result_bus_tags s @ [tag (instruction (reservation_station s ! idx))]\<rparr>)"

definition admitted :: "proc_inst_t \<Rightarrow> rs_entry_t \<Rightarrow> rs_entry_t" where
  "admitted inst e =
     e\<lparr>instruction := inst, valid := True, src1_ready := False, src2_ready := False,
       fired := False, completed := False, execute_cycles_left := 0,
       state_updated := False\<rparr>"



text \<open>Two pools of one unit, one result bus, fetch width 1, and four instructions: the
  second writes register 1, the third reads it, the first and the fourth use no
  register.\<close>

definition cfg_bus :: config where
  "cfg_bus = \<lparr>RESULT_BUSES = 1, K0_FU_COUNT = 1, K1_FU_COUNT = 1, K2_FU_COUNT = 0,
     FETCH_RATE = 1\<rparr>"

definition prog_bus :: "proc_inst_t list" where
  "prog_bus = [insn 0 (- 1) (- 1) (- 1), insn 1 (- 1) (- 1) 1, insn 1 1 (- 1) (- 1),
     insn 0 (- 1) (- 1) (- 1)]"

text \<open>What is seen of a slot at the result bus: occupied, tag, completed, completion
  cycle; and the tags on the result bus at the end of a cycle, alone or with the views of
  all slots.\<close>

definition completion_view :: "rs_entry_t \<Rightarrow> bool \<times> nat \<times> bool \<times> nat" where
  "completion_view e = (valid e, tag (instruction e), completed e, completed_cycle e)"

definition bus_view :: "error + proc_state \<Rightarrow> nat list \<times> (bool \<times> nat \<times> bool \<times> nat) list" where
  "bus_view r = (case r of Inl e \<Rightarrow> ([], [])
     | Inr s \<Rightarrow> (result_bus_tags s, map completion_view (reservation_station s)))"

definition bus_of :: "error + proc_state \<Rightarrow> nat list option" where
  "bus_of r = (case r of Inl e \<Rightarrow> None | Inr s \<Rightarrow> Some (result_bus_tags s))"





definition never_fires :: "proc_state \<Rightarrow> bool" where
  "never_fires s \<longleftrightarrow>
     trace s = [] \<and> dispatch_queue s = [] \<and> result_bus_tags s = []
     \<and> (\<exists>e. reservation_station s = [e, rs_zero, rs_zero, rs_zero, rs_zero, rs_zero]
           \<and> valid e \<and> \<not> fired e \<and> \<not> completed e \<and> \<not> state_updated e
           \<and> op_code (instruction e) = 3
           \<and> src_reg0 (instruction e) = - 1 \<and> src_reg1 (instruction e) = - 1)"

section \<open>Evaluation\<close>

lemma and_then_Inr: "and_then (Inr x) f = f x"
  by (simp add: and_then_def)

lemma and_then_Inl: "and_then (Inl e) f = Inl e"
  by (simp add: and_then_def)

text \<open>With this congruence rule the simplifier evaluates a stage before it looks at the
  stages that follow.\<close>

lemma and_then_weak_cong: "r = r' \<Longrightarrow> and_then r f = and_then r' f"
  by simp

text \<open>The size of the reservation station of a small configuration.\<close>

lemma rs_size_small:
  assumes "K0_FU_COUNT cfg + K1_FU_COUNT cfg + K2_FU_COUNT cfg \<le> 8"
  shows "rs_size cfg = 2 * (K0_FU_COUNT cfg + K1_FU_COUNT cfg + K2_FU_COUNT cfg)"
proof -
  have "2 * (K0_FU_COUNT cfg + K1_FU_COUNT cfg + K2_FU_COUNT cfg) < (2 :: nat) ^ 64"
    using assms by simp
  then show ?thesis by (simp add: rs_size_def)
qed

lemmas fu_defs = acquire_fu_def release_fu_def fu_type_def reg_ok_def NUM_REGISTERS_def

lemmas p1_defs = cycle_p1_def execute_stage_first_half_p1_def broadcast_phase_p1_def
  complete_phase_p1_def complete_slot_p1_def schedule_stage_first_half_p1_def fire_slot_p1_def
  dispatch_stage_first_half_p1_def reserve_slot_p1_def state_update_stage_second_half_p1_def
  retire_slot_p1_def schedule_stage_second_half_p1_def wake_slot_p1_def wake_tag_p1_def
  dispatch_stage_second_half_p1_def dispatch_slot_p1_def read_status_p1_def fetch_stage_p1_def
  fetch_one_p1_def stamp_def cycles_zero_def setup_proc_p1_def

lemmas p2_defs = cycle_p2_def execute_stage_first_half_p2_def broadcast_phase_p2_def
  complete_phase_p2_def complete_slot_p2_def completed_indices_p2_def bus_rank_def
  schedule_stage_first_half_p2_def ready_instructions_p2_def fire_p2_def
  dispatch_stage_first_half_p2_def dispatch_slot_p2_def state_update_stage_first_half_p2_def
  state_update_tag_p2_def find_slot_def state_update_stage_second_half_p2_def retire_slot_p2_def
  schedule_stage_second_half_p2_def refresh_slot_p2_def read_ready_p2_def fetch_stage_p2_def
  fetch_one_p2_def setup_proc_p2_def

lemmas run_defs = and_then_Inr and_then_Inl fu_defs rs_size_small insn_def rs_zero_def
  inst_zero_def
  upt_rec numeral_eq_Suc Let_def done_test_def all_rs_empty_def more_input_def
  slots_after_def slot_view_def log_of_def stamps_def

lemmas ps_defs = stamp_def cycles_zero_def setup_proc_ps_def fetch_one_ps_def fetch_stage_ps_def dispatch_slot_ps_def
  dispatch_stage_first_half_ps_def source_ready_ps_def fire_ps_def
  schedule_stage_first_half_ps_def complete_entry_ps_def completing_indices_ps_def
  executed_rank_def executed_event_ps_def complete_phase_ps_def broadcast_phase_ps_def
  execute_stage_first_half_ps_def tag_with_completion_ps_def state_update_tag_ps_def
  state_update_stage_first_half_ps_def cycle_ps_def

section \<open>Opcode classes\<close>

text \<open>C8, as stated, fails: opcode 3 maps to no class. \<open>get_counter\<close> answers the null
  pointer, \<open>get_fu_count\<close> answers 0, and with a free unit in every pool the chain of
  \<open>schedule_stage_first_half\<close> takes none.\<close>

theorem opcode_class_counterexample:
  "get_counter 3 = None \<and> get_counter 3 \<noteq> Some K1_counter
   \<and> get_fu_count cfg_unit 3 = 0
   \<and> k1_fu_available (setup_proc_p1 cfg_unit []) = 1
   \<and> \<not> fst (acquire_fu 3 (setup_proc_p1 cfg_unit []))"
  by (simp add: get_counter_def get_fu_count_def acquire_fu_def fu_type_def cfg_unit_def
      setup_proc_p1_def)

text \<open>C8, amended: the opcodes 0, 1 and 2 map to the classes 0, 1 and 2 and the absent opcode
  \<open>-1\<close> maps to class 1, each to exactly one class, and an instruction with such an opcode
  takes a unit exactly when its class has a free one, which is then counted off; every
  other opcode maps to no class and never takes a unit.\<close>

theorem opcode_class:
  "get_counter op =
     (if op = 0 then Some K0_counter else if op = 1 \<or> op = - 1 then Some K1_counter
      else if op = 2 then Some K2_counter else None)
   \<and> get_fu_count cfg op =
     (if op = 0 then K0_FU_COUNT cfg else if op = 1 \<or> op = - 1 then K1_FU_COUNT cfg
      else if op = 2 then K2_FU_COUNT cfg else 0)
   \<and> (fst (acquire_fu op s) \<longleftrightarrow> 0 < class_free op s)
   \<and> class_free op (snd (acquire_fu op s)) = class_free op s - 1"
  by (simp add: get_counter_def get_fu_count_def acquire_fu_def fu_type_def class_free_def)

theorem opcode_class_witness:
  "get_counter (- 1) = Some K1_counter
   \<and> get_fu_count cfg_unit (- 1) = 1
   \<and> fst (acquire_fu (- 1) (setup_proc_p1 cfg_unit []))
   \<and> class_free (- 1) (snd (acquire_fu (- 1) (setup_proc_p1 cfg_unit []))) = 0"
  using opcode_class [of "- 1" cfg_unit "setup_proc_p1 cfg_unit []"]
  by (simp add: class_free_def cfg_unit_def setup_proc_p1_def)

section \<open>Runs that depart from the specification\<close>

text \<open>C2 on part_001: \<open>schedule_stage_first_half\<close> visits the slots in storage order. On
  \<open>prog_order\<close>, after eight cycles slot 1 holds tag 6 and slot 3 holds tag 4, both of
  class 0, both ready and not fired, and one unit of class 0 is free. In cycle 9 the
  younger tag 6 fires and the older tag 4 is left; it fires in cycle 10.\<close>

theorem fire_order_p1_failing_input:
  "slots_after (cycles_p1 8 cfg_order (setup_proc_p1 cfg_order prog_order)) =
     [(True, 5, 0, True, True), (True, 6, 0, True, False),
      (True, 3, 1, True, True), (True, 4, 0, True, False)]
   \<and> slots_after (cycles_p1 9 cfg_order (setup_proc_p1 cfg_order prog_order)) =
     [(False, 5, 0, True, True), (True, 6, 0, True, True),
      (False, 3, 1, True, True), (True, 4, 0, True, False)]
   \<and> stamps SCHEDULED 6 (log_of (cycles_p1 12 cfg_order (setup_proc_p1 cfg_order prog_order)))
       = [9]
   \<and> stamps SCHEDULED 4 (log_of (cycles_p1 12 cfg_order (setup_proc_p1 cfg_order prog_order)))
       = [10]"
  by (simp add: p1_defs run_defs cfg_order_def prog_order_def
      cong: and_then_weak_cong let_weak_cong)

text \<open>C3 on part_002: the broadcast marks the destination register ready without a
  test. On \<open>prog_writers\<close> both writers of register 1 complete in cycle 4 and the one
  bus carries tag 1; register 1 is ready although tag 2, dispatched later, has not
  broadcast. part_001 keeps the register not ready on the same input.\<close>

theorem superseded_writer_p2_failing_input:
  "writers_view (cycles_p2 4 cfg_writers (setup_proc_p2 cfg_writers prog_writers)) =
     ([1], [(True, 1, 1, True), (True, 2, 1, True), (False, 0, 0, False), (False, 0, 0, False)])
   \<and> (case cycles_p2 4 cfg_writers (setup_proc_p2 cfg_writers prog_writers) of
         Inl e \<Rightarrow> False | Inr s \<Rightarrow> register_ready s 1)
   \<and> writers_view (cycles_p1 4 cfg_writers (setup_proc_p1 cfg_writers prog_writers)) =
     ([1], [(True, 1, 1, True), (True, 2, 1, True), (False, 0, 0, False), (False, 0, 0, False)])
   \<and> (case cycles_p1 4 cfg_writers (setup_proc_p1 cfg_writers prog_writers) of
         Inl e \<Rightarrow> False
       | Inr s \<Rightarrow> \<not> ready (register_status s 1) \<and> tag_reg (register_status s 1) = 2)"
  by (simp add: p1_defs p2_defs run_defs writers_view_def cfg_writers_def prog_writers_def
      cong: and_then_weak_cong let_weak_cong)

text \<open>C9 on part_001 and part_002: on \<open>prog_pair\<close> the two variants run to the end and
  their traces differ. part_002 fires the reader (tag 2) in cycle 3 together with the
  writer; part_001 fires it in cycle 5, after the writer's broadcast in cycle 4.\<close>

theorem variants_differ_failing_input:
  "log_of (run_proc_p1 20 more_input cfg_pair (setup_proc_p1 cfg_pair prog_pair)) =
     [(1, FETCHED, 1), (1, FETCHED, 2), (2, DISPATCHED, 1), (2, DISPATCHED, 2),
      (3, SCHEDULED, 1), (4, EXECUTED, 1), (5, SCHEDULED, 2), (5, STATE_UPDATE, 1),
      (6, EXECUTED, 2), (7, STATE_UPDATE, 2)]
   \<and> log_of (run_proc_p2 20 more_input cfg_pair (setup_proc_p2 cfg_pair prog_pair)) =
     [(1, FETCHED, 1), (1, FETCHED, 2), (2, DISPATCHED, 1), (2, DISPATCHED, 2),
      (3, SCHEDULED, 1), (3, SCHEDULED, 2), (4, EXECUTED, 1), (4, EXECUTED, 2),
      (5, STATE_UPDATE, 1), (6, STATE_UPDATE, 2)]"
  by (simp add: p1_defs p2_defs run_defs cfg_pair_def prog_pair_def
      cong: and_then_weak_cong let_weak_cong)

lemma fold_frame:
  assumes "\<And>i s. f (body i s) = f s"
  shows "f (fold body xs s) = f s"
  by (induction xs arbitrary: s) (simp_all add: assms)

lemma map_take_update:
  assumes "k < length xs"
  shows "(map h (take k xs) @ drop k xs)[k := h (xs ! k)] =
    map h (take (Suc k) xs) @ drop (Suc k) xs"
proof -
  have "drop k xs = xs ! k # drop (Suc k) xs"
    using assms by (simp add: Cons_nth_drop_Suc)
  then show ?thesis
    using assms by (simp add: list_update_append take_Suc_conv_app_nth)
qed

lemma fold_slots:
  assumes step: "\<And>i s. P s \<Longrightarrow> P (body i s) \<and>
      reservation_station (body i s) = (reservation_station s)[i := h (reservation_station s ! i)]"
    and P: "P s" and k: "k \<le> length (reservation_station s)"
  shows "P (fold body [0..<k] s) \<and>
    reservation_station (fold body [0..<k] s) =
      map h (take k (reservation_station s)) @ drop k (reservation_station s)"
  using k
proof (induction k)
  case 0
  then show ?case using P by simp
next
  case (Suc k)
  let ?t = "fold body [0..<k] s"
  from Suc have IH: "P ?t" "reservation_station ?t =
      map h (take k (reservation_station s)) @ drop k (reservation_station s)"
    by simp_all
  have k: "k < length (reservation_station s)" using Suc.prems by simp
  have nth: "(map h (take k (reservation_station s)) @ drop k (reservation_station s)) ! k
      = reservation_station s ! k"
    using k by (simp add: nth_append)
  have st: "P (body k ?t)" "reservation_station (body k ?t) =
      (reservation_station ?t)[k := h (reservation_station ?t ! k)]"
    using step [OF IH(1), of k] by blast+
  have "reservation_station (body k ?t) =
      (map h (take k (reservation_station s)) @ drop k (reservation_station s))
        [k := h (reservation_station s ! k)]"
    by (simp only: st(2) IH(2) nth)
  also have "\<dots> = map h (take (Suc k) (reservation_station s)) @ drop (Suc k) (reservation_station s)"
    using k by (rule map_take_update)
  finally show ?case using st(1) by simp
qed

lemma fold_slots_all:
  assumes step: "\<And>i s. P s \<Longrightarrow> P (body i s) \<and>
      reservation_station (body i s) = (reservation_station s)[i := h (reservation_station s ! i)]"
    and P: "P s"
  shows "reservation_station (fold body [0..<length (reservation_station s)] s) =
      map h (reservation_station s)"
  using fold_slots [where P = P and body = body and h = h and s = s and k = "length (reservation_station s)", OF step P]
  by simp

lemma complete_phase_rs:
  "reservation_station (complete_phase_p1 s) =
     map (complete_entry_p1 (current_cycle s)) (reservation_station s)"
  unfolding complete_phase_p1_def
  by (rule fold_slots_all [where P = "\<lambda>t. current_cycle t = current_cycle s"])
     (auto simp: complete_slot_p1_def complete_entry_p1_def Let_def)

lemma retire_rs:
  "reservation_station (state_update_stage_second_half_p1 s) =
     map (retire_entry_p1 (current_cycle s)) (reservation_station s)"
  unfolding state_update_stage_second_half_p1_def
  by (rule fold_slots_all [where P = "\<lambda>t. current_cycle t = current_cycle s"])
     (auto simp: retire_slot_p1_def retire_entry_p1_def Let_def)

lemma wake_rs:
  "reservation_station (schedule_stage_second_half_p1 s) =
     map (wake_entry_p1 (result_bus_tags s)) (reservation_station s)"
  unfolding schedule_stage_second_half_p1_def
  by (rule fold_slots_all [where P = "\<lambda>t. result_bus_tags t = result_bus_tags s"])
     (auto simp: wake_slot_p1_def wake_entry_p1_def Let_def)

lemma fold_slots_length:
  assumes "\<And>i s. length (reservation_station (body i s)) = length (reservation_station s)"
  shows "length (reservation_station (fold body xs s)) = length (reservation_station s)"
  by (induction xs arbitrary: s) (simp_all add: assms)

subsection \<open>complete\<close>

lemma complete_phase_frame:
  "trace (complete_phase_p1 s) = trace s"
  "dispatch_queue (complete_phase_p1 s) = dispatch_queue s"
  "reserved_slots (complete_phase_p1 s) = reserved_slots s"
  "result_bus_tags (complete_phase_p1 s) = result_bus_tags s"
  "register_status (complete_phase_p1 s) = register_status s"
  "k0_fu_available (complete_phase_p1 s) = k0_fu_available s"
  "k1_fu_available (complete_phase_p1 s) = k1_fu_available s"
  "k2_fu_available (complete_phase_p1 s) = k2_fu_available s"
  "global_tag_counter (complete_phase_p1 s) = global_tag_counter s"
  "current_cycle (complete_phase_p1 s) = current_cycle s"
  "instructions_retired (complete_phase_p1 s) = instructions_retired s"
  unfolding complete_phase_p1_def
  by (rule fold_frame, simp add: complete_slot_p1_def Let_def)+

lemma complete_phase_ci_aux:
  "k \<le> length (reservation_station s) \<Longrightarrow>
   completed_instructions (fold complete_slot_p1 [0..<k] s) =
     completed_instructions s @
       filter (\<lambda>i. valid (reservation_station s ! i) \<and> fired (reservation_station s ! i)
                 \<and> \<not> completed (reservation_station s ! i)) [0..<k]"
proof (induction k)
  case 0
  then show ?case by simp
next
  case (Suc k)
  define t where "t = fold complete_slot_p1 [0..<k] s"
  have "reservation_station t =
      map (complete_entry_p1 (current_cycle s)) (take k (reservation_station s))
        @ drop k (reservation_station s)"
    unfolding t_def
    using fold_slots [where P = "\<lambda>t. current_cycle t = current_cycle s"
        and body = complete_slot_p1 and h = "complete_entry_p1 (current_cycle s)"
        and s = s and k = k] Suc.prems
    by (auto simp: complete_slot_p1_def complete_entry_p1_def Let_def)
  then have nth: "reservation_station t ! k = reservation_station s ! k"
    using Suc.prems by (simp add: nth_append)
  have IH: "completed_instructions t = completed_instructions s @
       filter (\<lambda>i. valid (reservation_station s ! i) \<and> fired (reservation_station s ! i)
                 \<and> \<not> completed (reservation_station s ! i)) [0..<k]"
    unfolding t_def using Suc by simp
  have st: "fold complete_slot_p1 [0..<Suc k] s = complete_slot_p1 k t"
    by (simp add: t_def)
  show ?case
    unfolding st using IH nth by (simp add: complete_slot_p1_def Let_def)
qed

lemma complete_phase_ci:
  "completed_instructions (complete_phase_p1 s) =
     completed_instructions s @
       filter (\<lambda>i. valid (reservation_station s ! i) \<and> fired (reservation_station s ! i)
                 \<and> \<not> completed (reservation_station s ! i))
         [0..<length (reservation_station s)]"
  unfolding complete_phase_p1_def by (rule complete_phase_ci_aux) simp

subsection \<open>retire\<close>

lemma retire_frame:
  "trace (state_update_stage_second_half_p1 s) = trace s"
  "dispatch_queue (state_update_stage_second_half_p1 s) = dispatch_queue s"
  "reserved_slots (state_update_stage_second_half_p1 s) = reserved_slots s"
  "result_bus_tags (state_update_stage_second_half_p1 s) = result_bus_tags s"
  "completed_instructions (state_update_stage_second_half_p1 s) = completed_instructions s"
  "register_status (state_update_stage_second_half_p1 s) = register_status s"
  "k0_fu_available (state_update_stage_second_half_p1 s) = k0_fu_available s"
  "k1_fu_available (state_update_stage_second_half_p1 s) = k1_fu_available s"
  "k2_fu_available (state_update_stage_second_half_p1 s) = k2_fu_available s"
  "global_tag_counter (state_update_stage_second_half_p1 s) = global_tag_counter s"
  "current_cycle (state_update_stage_second_half_p1 s) = current_cycle s"
  "instruction_cycles (state_update_stage_second_half_p1 s) = instruction_cycles s"
  unfolding state_update_stage_second_half_p1_def
  by (rule fold_frame, simp add: retire_slot_p1_def Let_def)+

subsection \<open>wakeup\<close>

lemma wake_frame:
  "trace (schedule_stage_second_half_p1 s) = trace s"
  "dispatch_queue (schedule_stage_second_half_p1 s) = dispatch_queue s"
  "reserved_slots (schedule_stage_second_half_p1 s) = reserved_slots s"
  "result_bus_tags (schedule_stage_second_half_p1 s) = result_bus_tags s"
  "completed_instructions (schedule_stage_second_half_p1 s) = completed_instructions s"
  "register_status (schedule_stage_second_half_p1 s) = register_status s"
  "k0_fu_available (schedule_stage_second_half_p1 s) = k0_fu_available s"
  "k1_fu_available (schedule_stage_second_half_p1 s) = k1_fu_available s"
  "k2_fu_available (schedule_stage_second_half_p1 s) = k2_fu_available s"
  "global_tag_counter (schedule_stage_second_half_p1 s) = global_tag_counter s"
  "current_cycle (schedule_stage_second_half_p1 s) = current_cycle s"
  "instructions_retired (schedule_stage_second_half_p1 s) = instructions_retired s"
  "instruction_cycles (schedule_stage_second_half_p1 s) = instruction_cycles s"
  "logging (schedule_stage_second_half_p1 s) = logging s"
  unfolding schedule_stage_second_half_p1_def
  by (rule fold_frame, simp add: wake_slot_p1_def Let_def)+

subsection \<open>reserve\<close>

lemma reserve_frame:
  "trace (dispatch_stage_first_half_p1 s) = trace s"
  "dispatch_queue (dispatch_stage_first_half_p1 s) = dispatch_queue s"
  "reservation_station (dispatch_stage_first_half_p1 s) = reservation_station s"
  "result_bus_tags (dispatch_stage_first_half_p1 s) = result_bus_tags s"
  "completed_instructions (dispatch_stage_first_half_p1 s) = completed_instructions s"
  "register_status (dispatch_stage_first_half_p1 s) = register_status s"
  "k0_fu_available (dispatch_stage_first_half_p1 s) = k0_fu_available s"
  "k1_fu_available (dispatch_stage_first_half_p1 s) = k1_fu_available s"
  "k2_fu_available (dispatch_stage_first_half_p1 s) = k2_fu_available s"
  "global_tag_counter (dispatch_stage_first_half_p1 s) = global_tag_counter s"
  "current_cycle (dispatch_stage_first_half_p1 s) = current_cycle s"
  "instructions_retired (dispatch_stage_first_half_p1 s) = instructions_retired s"
  "instruction_cycles (dispatch_stage_first_half_p1 s) = instruction_cycles s"
  "logging (dispatch_stage_first_half_p1 s) = logging s"
  unfolding dispatch_stage_first_half_p1_def
  by (rule fold_frame, simp add: reserve_slot_p1_def)+

subsection \<open>fetch\<close>

lemma funpow_frame:
  assumes "\<And>s. f (g s) = f s"
  shows "f ((g ^^ n) s) = f s"
  by (induction n) (simp_all add: assms)

lemma fetch_frame:
  "reserved_slots (fetch_stage_p1 cfg s) = reserved_slots s"
  "reservation_station (fetch_stage_p1 cfg s) = reservation_station s"
  "result_bus_tags (fetch_stage_p1 cfg s) = result_bus_tags s"
  "completed_instructions (fetch_stage_p1 cfg s) = completed_instructions s"
  "register_status (fetch_stage_p1 cfg s) = register_status s"
  "k0_fu_available (fetch_stage_p1 cfg s) = k0_fu_available s"
  "k1_fu_available (fetch_stage_p1 cfg s) = k1_fu_available s"
  "k2_fu_available (fetch_stage_p1 cfg s) = k2_fu_available s"
  "current_cycle (fetch_stage_p1 cfg s) = current_cycle s"
  "instructions_retired (fetch_stage_p1 cfg s) = instructions_retired s"
  unfolding fetch_stage_p1_def
  by (rule funpow_frame, simp add: fetch_one_p1_def split: list.splits)+

subsection \<open>fire\<close>

lemma acquire_fu_frame:
  "trace (snd (acquire_fu op s)) = trace s"
  "dispatch_queue (snd (acquire_fu op s)) = dispatch_queue s"
  "reserved_slots (snd (acquire_fu op s)) = reserved_slots s"
  "reservation_station (snd (acquire_fu op s)) = reservation_station s"
  "result_bus_tags (snd (acquire_fu op s)) = result_bus_tags s"
  "completed_instructions (snd (acquire_fu op s)) = completed_instructions s"
  "register_status (snd (acquire_fu op s)) = register_status s"
  "global_tag_counter (snd (acquire_fu op s)) = global_tag_counter s"
  "current_cycle (snd (acquire_fu op s)) = current_cycle s"
  "instructions_retired (snd (acquire_fu op s)) = instructions_retired s"
  "instruction_cycles (snd (acquire_fu op s)) = instruction_cycles s"
  "logging (snd (acquire_fu op s)) = logging s"
  by (simp_all add: acquire_fu_def)

lemma release_fu_frame:
  "trace (release_fu op s) = trace s"
  "dispatch_queue (release_fu op s) = dispatch_queue s"
  "reserved_slots (release_fu op s) = reserved_slots s"
  "reservation_station (release_fu op s) = reservation_station s"
  "result_bus_tags (release_fu op s) = result_bus_tags s"
  "completed_instructions (release_fu op s) = completed_instructions s"
  "register_status (release_fu op s) = register_status s"
  "global_tag_counter (release_fu op s) = global_tag_counter s"
  "current_cycle (release_fu op s) = current_cycle s"
  "instructions_retired (release_fu op s) = instructions_retired s"
  "instruction_cycles (release_fu op s) = instruction_cycles s"
  "logging (release_fu op s) = logging s"
  by (simp_all add: release_fu_def)

lemma fire_frame:
  "trace (schedule_stage_first_half_p1 s) = trace s"
  "dispatch_queue (schedule_stage_first_half_p1 s) = dispatch_queue s"
  "reserved_slots (schedule_stage_first_half_p1 s) = reserved_slots s"
  "result_bus_tags (schedule_stage_first_half_p1 s) = result_bus_tags s"
  "completed_instructions (schedule_stage_first_half_p1 s) = completed_instructions s"
  "register_status (schedule_stage_first_half_p1 s) = register_status s"
  "global_tag_counter (schedule_stage_first_half_p1 s) = global_tag_counter s"
  "current_cycle (schedule_stage_first_half_p1 s) = current_cycle s"
  "instructions_retired (schedule_stage_first_half_p1 s) = instructions_retired s"
  unfolding schedule_stage_first_half_p1_def
  by (rule fold_frame,
      simp add: fire_slot_p1_def Let_def acquire_fu_frame split: prod.splits,
      metis acquire_fu_frame snd_conv)+

lemma fold_slots_rel:
  assumes step: "\<And>i s. \<exists>e'. R (reservation_station s ! i) e' \<and>
      reservation_station (body i s) = (reservation_station s)[i := e']"
    and k: "k \<le> length (reservation_station s)"
  shows "length (reservation_station (fold body [0..<k] s)) = length (reservation_station s) \<and>
    (\<forall>j<length (reservation_station s).
       if j < k then R (reservation_station s ! j) (reservation_station (fold body [0..<k] s) ! j)
       else reservation_station (fold body [0..<k] s) ! j = reservation_station s ! j)"
  using k
proof (induction k)
  case 0
  then show ?case by simp
next
  case (Suc k)
  define t where "t = fold body [0..<k] s"
  have IH: "length (reservation_station t) = length (reservation_station s)"
    "\<And>j. j < length (reservation_station s) \<Longrightarrow> j < k \<Longrightarrow>
        R (reservation_station s ! j) (reservation_station t ! j)"
    "\<And>j. j < length (reservation_station s) \<Longrightarrow> \<not> j < k \<Longrightarrow>
        reservation_station t ! j = reservation_station s ! j"
    using Suc unfolding t_def by (simp_all split: if_splits)
  obtain e' where e': "R (reservation_station t ! k) e'"
      "reservation_station (body k t) = (reservation_station t)[k := e']"
    using step [of t k] by blast
  have st: "fold body [0..<Suc k] s = body k t"
    by (simp add: t_def)
  have k: "k < length (reservation_station s)" using Suc.prems by simp
  show ?case
    unfolding st e'(2)
    using IH e'(1) k by (auto simp: nth_list_update less_Suc_eq)
qed

lemma fire_slot_rel:
  "\<exists>e'. fire_rel (reservation_station s ! i) e' \<and>
     reservation_station (fire_slot_p1 i s) = (reservation_station s)[i := e']"
proof -
  define e where "e = reservation_station s ! i"
  obtain b s1 where a: "acquire_fu (op_code (instruction e)) s = (b, s1)"
    by force
  have rs: "reservation_station s1 = reservation_station s"
    using acquire_fu_frame(4) [of "op_code (instruction e)" s] a by simp
  show ?thesis
  proof (cases "valid e \<and> \<not> fired e \<and> src1_ready e \<and> src2_ready e \<and> b")
    case True
    then have "reservation_station (fire_slot_p1 i s) = (reservation_station s)[i := e\<lparr>fired := True\<rparr>]"
      by (simp add: fire_slot_p1_def Let_def a rs e_def [symmetric])
    moreover have "fire_rel e (e\<lparr>fired := True\<rparr>)"
      using True by (simp add: fire_rel_def)
    ultimately show ?thesis unfolding e_def by blast
  next
    case False
    then have "reservation_station (fire_slot_p1 i s) = (reservation_station s)[i := e]"
      by (auto simp: fire_slot_p1_def Let_def a rs e_def [symmetric]) (simp_all add: e_def)
    moreover have "fire_rel e e"
      by (simp add: fire_rel_def)
    ultimately show ?thesis unfolding e_def by blast
  qed
qed

lemma fire_rs_length:
  "length (reservation_station (schedule_stage_first_half_p1 s)) = length (reservation_station s)"
  unfolding schedule_stage_first_half_p1_def
  using fold_slots_rel [where R = fire_rel and body = fire_slot_p1 and s = s
      and k = "length (reservation_station s)", OF fire_slot_rel]
  by simp

lemma fire_rs_nth:
  "j < length (reservation_station s) \<Longrightarrow>
   fire_rel (reservation_station s ! j) (reservation_station (schedule_stage_first_half_p1 s) ! j)"
  unfolding schedule_stage_first_half_p1_def
  using fold_slots_rel [where R = fire_rel and body = fire_slot_p1 and s = s
      and k = "length (reservation_station s)", OF fire_slot_rel]
  by simp

subsection \<open>broadcast\<close>

lemma broadcast_entry_fields [simp]:
  "valid (broadcast_entry_p1 c e) = valid e"
  "instruction (broadcast_entry_p1 c e) = instruction e"
  "src1_ready (broadcast_entry_p1 c e) = src1_ready e"
  "src2_ready (broadcast_entry_p1 c e) = src2_ready e"
  "src1_parent (broadcast_entry_p1 c e) = src1_parent e"
  "src2_parent (broadcast_entry_p1 c e) = src2_parent e"
  "fired (broadcast_entry_p1 c e) = fired e"
  "completed (broadcast_entry_p1 c e) = completed e"
  "state_updated (broadcast_entry_p1 c e) = True"
  "completed_cycle (broadcast_entry_p1 c e) = completed_cycle e"
  "state_update_cycle (broadcast_entry_p1 c e) = c"
  by (simp_all add: broadcast_entry_p1_def)

lemma broadcast_entry_idem:
  "broadcast_entry_p1 c (broadcast_entry_p1 c e) = broadcast_entry_p1 c e"
  by (simp add: broadcast_entry_p1_def)

lemma broadcast_loop_effect:
  "broadcast_loop_p1 n s = Inr s' \<Longrightarrow>
     length (reservation_station s') = length (reservation_station s)
     \<and> completed_instructions s' = drop n (completed_instructions s)
     \<and> (\<forall>j<length (reservation_station s). reservation_station s' ! j =
          (if j \<in> set (take n (completed_instructions s))
           then broadcast_entry_p1 (current_cycle s) (reservation_station s ! j)
           else reservation_station s ! j))
     \<and> result_bus_tags s' = result_bus_tags s @
          map (\<lambda>p. tag (instruction (reservation_station s ! p)))
            (take n (completed_instructions s))
     \<and> set (take n (completed_instructions s)) \<subseteq> {..<length (reservation_station s)}"
proof (induction n arbitrary: s)
  case 0
  then show ?case by simp
next
  case (Suc n)
  show ?case
  proof (cases "completed_instructions s")
    case Nil
    then show ?thesis using Suc.prems by simp
  next
    case (Cons p rest)
    define e where "e = reservation_station s ! p"
    define s1 where "s1 = s\<lparr>completed_instructions := rest,
        result_bus_tags := result_bus_tags s @ [tag (instruction e)],
        reservation_station := (reservation_station s)
          [p := e\<lparr>state_updated := True, state_update_cycle := current_cycle s\<rparr>]\<rparr>"
    define s2 where "s2 = release_fu (op_code (instruction e))
        (if dest_reg (instruction e) \<noteq> - 1
            \<and> tag_reg (register_status s1 (dest_reg (instruction e))) = tag (instruction e)
         then s1\<lparr>register_status := (register_status s1)
                (dest_reg (instruction e) :=
                   (register_status s1 (dest_reg (instruction e)))\<lparr>ready := True\<rparr>)\<rparr>
         else s1)"
    have p: "p < length (reservation_station s)"
      using Suc.prems Cons by (auto split: if_splits)
    have run: "broadcast_loop_p1 n s2 = Inr s'"
      using Suc.prems Cons p
      by (auto simp: s2_def s1_def e_def Let_def split: if_splits)
    have s2: "reservation_station s2 =
        (reservation_station s)[p := broadcast_entry_p1 (current_cycle s) e]"
      "completed_instructions s2 = rest"
      "result_bus_tags s2 = result_bus_tags s @ [tag (instruction e)]"
      "current_cycle s2 = current_cycle s"
      by (simp_all add: s2_def s1_def release_fu_frame broadcast_entry_p1_def)
    note IH = Suc.IH [OF run, unfolded s2, simplified]
    have tags: "map (\<lambda>q. tag (instruction ((reservation_station s)
          [p := broadcast_entry_p1 (current_cycle s) e] ! q))) (take n rest) =
        map (\<lambda>q. tag (instruction (reservation_station s ! q))) (take n rest)"
      by (rule map_cong [OF refl])
         (use p in \<open>simp add: nth_list_update broadcast_entry_p1_def e_def\<close>)
    show ?thesis
      using IH p
      by (auto simp: Cons tags nth_list_update e_def broadcast_entry_idem)
  qed
qed

lemma broadcast_loop_frame:
  "broadcast_loop_p1 n s = Inr s' \<Longrightarrow>
     trace s' = trace s \<and> dispatch_queue s' = dispatch_queue s
     \<and> reserved_slots s' = reserved_slots s \<and> global_tag_counter s' = global_tag_counter s
     \<and> current_cycle s' = current_cycle s \<and> instructions_retired s' = instructions_retired s
     \<and> logging s' = logging s \<and> instruction_cycles s' = instruction_cycles s"
proof (induction n arbitrary: s)
  case 0
  then show ?case by simp
next
  case (Suc n)
  show ?case
  proof (cases "completed_instructions s")
    case Nil
    then show ?thesis using Suc.prems by simp
  next
    case (Cons p rest)
    show ?thesis
      using Suc.prems Cons
      by (auto simp: Let_def release_fu_frame split: if_splits dest!: Suc.IH)
  qed
qed

subsection \<open>retire, in detail\<close>

lemma fold_upt_induct:
  assumes "Q 0 s" and "\<And>i t. i < n \<Longrightarrow> Q i t \<Longrightarrow> Q (Suc i) (body i t)"
  shows "Q n (fold body [0..<n] s)"
proof -
  have "k \<le> n \<Longrightarrow> Q k (fold body [0..<k] s)" for k
    by (induction k) (simp_all add: assms)
  then show ?thesis by simp
qed


subsection \<open>dispatch\<close>

lemma dispatch_slot_effect:
  assumes "dispatch_slot_p1 i s = Inr s'"
  shows "reservation_station s' = (reservation_station s)
           [i := dispatch_entry_p1 (register_status s) (hd (dispatch_queue s))
                   (reservation_station s ! i)]"
    and "dispatch_queue s' = tl (dispatch_queue s)"
    and "reserved_slots s' = reserved_slots s - 1"
    and "register_status s' =
           (if dest_reg (hd (dispatch_queue s)) = - 1 then register_status s
            else (register_status s)(dest_reg (hd (dispatch_queue s)) :=
                   \<lparr>tag_reg = tag (hd (dispatch_queue s)), ready = False\<rparr>))"
    and "trace s' = trace s" and "result_bus_tags s' = result_bus_tags s"
    and "completed_instructions s' = completed_instructions s"
    and "k0_fu_available s' = k0_fu_available s" and "k1_fu_available s' = k1_fu_available s"
    and "k2_fu_available s' = k2_fu_available s"
    and "global_tag_counter s' = global_tag_counter s" and "current_cycle s' = current_cycle s"
    and "instructions_retired s' = instructions_retired s"
    and "logging s' = logging s @ [(current_cycle s, DISPATCHED, tag (hd (dispatch_queue s)))]"
  using assms
  by (auto simp: dispatch_slot_p1_def read_status_p1_def and_then_def Let_def dispatch_entry_p1_def
      split: if_splits sum.splits)

lemma dispatch_loop_effect:
  "dispatch_loop_p1 js s = Inr s' \<Longrightarrow>
     length (reservation_station s') = length (reservation_station s)
     \<and> (\<forall>j<length (reservation_station s). valid (reservation_station s ! j) \<longrightarrow>
           reservation_station s' ! j = reservation_station s ! j)
     \<and> trace s' = trace s \<and> result_bus_tags s' = result_bus_tags s
     \<and> completed_instructions s' = completed_instructions s
     \<and> k0_fu_available s' = k0_fu_available s \<and> k1_fu_available s' = k1_fu_available s
     \<and> k2_fu_available s' = k2_fu_available s
     \<and> global_tag_counter s' = global_tag_counter s \<and> current_cycle s' = current_cycle s
     \<and> instructions_retired s' = instructions_retired s
     \<and> set (logging s) \<subseteq> set (logging s')"
proof (induction js arbitrary: s)
  case Nil
  then show ?case by simp
next
  case (Cons i js)
  show ?case
  proof (cases "reserved_slots s = 0 \<or> dispatch_queue s = []")
    case True
    then show ?thesis using Cons.prems by auto
  next
    case False
    show ?thesis
    proof (cases "valid (reservation_station s ! i)")
      case True
      then show ?thesis using Cons False by simp
    next
      case inv: False
      then obtain s1 where s1: "dispatch_slot_p1 i s = Inr s1" "dispatch_loop_p1 js s1 = Inr s'"
        using Cons.prems False by (auto simp: and_then_def split: sum.splits)
      note e = dispatch_slot_effect [OF s1(1)]
      have keep: "reservation_station s1 ! j = reservation_station s ! j"
        if "j < length (reservation_station s)" "valid (reservation_station s ! j)" for j
        using that inv by (cases "j = i") (simp_all add: e)
      have len: "length (reservation_station s1) = length (reservation_station s)"
        by (simp add: e)
      from Cons.IH [OF s1(2)] show ?thesis
        unfolding len using keep by (auto simp: e(2-))
    qed
  qed
qed

lemma dispatch_stage_effect:
  "dispatch_stage_second_half_p1 s = Inr s' \<Longrightarrow>
     length (reservation_station s') = length (reservation_station s)
     \<and> (\<forall>j<length (reservation_station s). valid (reservation_station s ! j) \<longrightarrow>
           reservation_station s' ! j = reservation_station s ! j)
     \<and> trace s' = trace s \<and> result_bus_tags s' = result_bus_tags s
     \<and> completed_instructions s' = completed_instructions s
     \<and> k0_fu_available s' = k0_fu_available s \<and> k1_fu_available s' = k1_fu_available s
     \<and> k2_fu_available s' = k2_fu_available s
     \<and> global_tag_counter s' = global_tag_counter s \<and> current_cycle s' = current_cycle s
     \<and> instructions_retired s' = instructions_retired s
     \<and> set (logging s) \<subseteq> set (logging s')"
  unfolding dispatch_stage_second_half_p1_def by (rule dispatch_loop_effect)


lemma execute_stage_effect:
  assumes "execute_stage_first_half_p1 cfg s = Inr s'"
  defines "q \<equiv> take (RESULT_BUSES cfg) (completed_instructions (complete_phase_p1 s))"
  shows "length (reservation_station s') = length (reservation_station s)"
    and "\<And>j. j < length (reservation_station s) \<Longrightarrow> reservation_station s' ! j =
          (if j \<in> set q
           then broadcast_entry_p1 (current_cycle s)
                  (complete_entry_p1 (current_cycle s) (reservation_station s ! j))
           else complete_entry_p1 (current_cycle s) (reservation_station s ! j))"
    and "result_bus_tags s' = map (\<lambda>p. tag (instruction (reservation_station s ! p))) q"
    and "completed_instructions s' =
          drop (RESULT_BUSES cfg) (completed_instructions (complete_phase_p1 s))"
    and "set q \<subseteq> {..<length (reservation_station s)}"
    and "trace s' = trace s" and "dispatch_queue s' = dispatch_queue s"
    and "reserved_slots s' = reserved_slots s" and "global_tag_counter s' = global_tag_counter s"
    and "current_cycle s' = current_cycle s" and "instructions_retired s' = instructions_retired s"
proof -
  define m where "m = (complete_phase_p1 s)\<lparr>result_bus_tags := []\<rparr>"
  have run: "broadcast_loop_p1 (RESULT_BUSES cfg) m = Inr s'"
    using assms(1) by (simp add: execute_stage_first_half_p1_def broadcast_phase_p1_def m_def)
  have m: "reservation_station m = map (complete_entry_p1 (current_cycle s)) (reservation_station s)"
    "completed_instructions m = completed_instructions (complete_phase_p1 s)"
    "result_bus_tags m = []" "current_cycle m = current_cycle s"
    "trace m = trace s" "dispatch_queue m = dispatch_queue s"
    "reserved_slots m = reserved_slots s" "global_tag_counter m = global_tag_counter s"
    "instructions_retired m = instructions_retired s"
    by (simp_all add: m_def complete_phase_rs complete_phase_frame)
  note eff = broadcast_loop_effect [OF run, unfolded m, simplified]
  note fr = broadcast_loop_frame [OF run, unfolded m]
  have inst: "instruction (complete_entry_p1 c e) = instruction e" for c e
    by (simp add: complete_entry_p1_def)
  show "length (reservation_station s') = length (reservation_station s)"
    using eff by simp
  show "set q \<subseteq> {..<length (reservation_station s)}"
    using eff by (simp add: q_def)
  show "\<And>j. j < length (reservation_station s) \<Longrightarrow> reservation_station s' ! j =
          (if j \<in> set q
           then broadcast_entry_p1 (current_cycle s)
                  (complete_entry_p1 (current_cycle s) (reservation_station s ! j))
           else complete_entry_p1 (current_cycle s) (reservation_station s ! j))"
    using eff by (simp add: q_def)
  have "map (\<lambda>p. tag (instruction (map (complete_entry_p1 (current_cycle s))
          (reservation_station s) ! p))) q =
        map (\<lambda>p. tag (instruction (reservation_station s ! p))) q"
    using eff by (intro map_cong [OF refl]) (auto simp: q_def inst)
  then show "result_bus_tags s' = map (\<lambda>p. tag (instruction (reservation_station s ! p))) q"
    using eff by (simp add: q_def)
  show "completed_instructions s' =
          drop (RESULT_BUSES cfg) (completed_instructions (complete_phase_p1 s))"
    using eff by simp
  show "trace s' = trace s" "dispatch_queue s' = dispatch_queue s"
    "reserved_slots s' = reserved_slots s" "global_tag_counter s' = global_tag_counter s"
    "current_cycle s' = current_cycle s" "instructions_retired s' = instructions_retired s"
    using fr by simp_all
qed

lemma cycle_p1_stages:
  assumes "cycle_p1 cfg s = Inr t"
  obtains s1 s5 s6 where
    "execute_stage_first_half_p1 cfg (s\<lparr>current_cycle := current_cycle s + 1\<rparr>) = Inr s1"
    "s5 = schedule_stage_second_half_p1 (state_update_stage_second_half_p1
            (dispatch_stage_first_half_p1 (schedule_stage_first_half_p1 s1)))"
    "dispatch_stage_second_half_p1 s5 = Inr s6"
    "t = fetch_stage_p1 cfg s6"
  using assms
  by (auto simp: cycle_p1_def and_then_def Let_def split: sum.splits)

lemma wake_tag_eq:
  "wake_tag_p1 t e =
     e\<lparr>src1_ready := src1_ready e \<or> src1_parent e = t,
       src2_ready := src2_ready e \<or> src2_parent e = t\<rparr>"
  by (cases e) (auto simp: wake_tag_p1_def Let_def)

lemma wake_fold:
  "fold wake_tag_p1 bus e =
     e\<lparr>src1_ready := src1_ready e \<or> src1_parent e \<in> set bus,
       src2_ready := src2_ready e \<or> src2_parent e \<in> set bus\<rparr>"
proof (induction bus arbitrary: e)
  case Nil
  then show ?case by simp
next
  case (Cons t bus)
  have "fold wake_tag_p1 (t # bus) e = fold wake_tag_p1 bus (wake_tag_p1 t e)"
    by simp
  also have "\<dots> = (wake_tag_p1 t e)
      \<lparr>src1_ready := src1_ready (wake_tag_p1 t e) \<or> src1_parent (wake_tag_p1 t e) \<in> set bus,
       src2_ready := src2_ready (wake_tag_p1 t e) \<or> src2_parent (wake_tag_p1 t e) \<in> set bus\<rparr>"
    by (rule Cons.IH)
  also have "\<dots> = e\<lparr>src1_ready := src1_ready e \<or> src1_parent e \<in> set (t # bus),
       src2_ready := src2_ready e \<or> src2_parent e \<in> set (t # bus)\<rparr>"
    unfolding wake_tag_eq by (cases e) auto
  finally show ?case .
qed

lemma fire_rel_fields:
  assumes "fire_rel e e'"
  shows "valid e' = valid e" "instruction e' = instruction e"
    "src1_ready e' = src1_ready e" "src2_ready e' = src2_ready e"
    "src1_parent e' = src1_parent e" "src2_parent e' = src2_parent e"
    "completed e' = completed e" "state_updated e' = state_updated e"
    "completed_cycle e' = completed_cycle e" "state_update_cycle e' = state_update_cycle e"
    "fired e \<Longrightarrow> e' = e" "\<not> (src1_ready e \<and> src2_ready e) \<Longrightarrow> e' = e"
    "fired e' \<longleftrightarrow> fired e \<or> e' \<noteq> e"
  using assms by (auto simp: fire_rel_def)

lemma wakeup_step:
  assumes aw: "awaits_p1 s i p" and cyc: "cycle_p1 cfg s = Inr t"
  shows "\<not> fired (reservation_station t ! i)"
    and "valid (reservation_station t ! i)"
    and "instruction (reservation_station t ! i) = instruction (reservation_station s ! i)"
    and "src1_parent (reservation_station t ! i) = src1_parent (reservation_station s ! i)"
    and "src2_parent (reservation_station t ! i) = src2_parent (reservation_station s ! i)"
    and "src1_ready (reservation_station t ! i) \<longleftrightarrow>
          src1_ready (reservation_station s ! i)
          \<or> src1_parent (reservation_station s ! i) \<in> set (result_bus_tags t)"
    and "src2_ready (reservation_station t ! i) \<longleftrightarrow>
          src2_ready (reservation_station s ! i)
          \<or> src2_parent (reservation_station s ! i) \<in> set (result_bus_tags t)"
    and "p \<notin> set (result_bus_tags t) \<Longrightarrow> awaits_p1 t i p"
proof -
  define s0 where "s0 = s\<lparr>current_cycle := current_cycle s + 1\<rparr>"
  define e where "e = reservation_station s ! i"
  from cyc obtain s1 s5 s6 where st:
    "execute_stage_first_half_p1 cfg s0 = Inr s1"
    "s5 = schedule_stage_second_half_p1 (state_update_stage_second_half_p1
            (dispatch_stage_first_half_p1 (schedule_stage_first_half_p1 s1)))"
    "dispatch_stage_second_half_p1 s5 = Inr s6"
    "t = fetch_stage_p1 cfg s6"
    unfolding s0_def by (rule cycle_p1_stages)
  have i: "i < length (reservation_station s)" and nci: "i \<notin> set (completed_instructions s)"
    and e: "valid e" "\<not> fired e" "\<not> state_updated e"
      "(\<not> src1_ready e \<and> src1_parent e = p) \<or> (\<not> src2_ready e \<and> src2_parent e = p)"
    using aw by (simp_all add: awaits_p1_def e_def Let_def)
  note ex = execute_stage_effect [OF st(1)]
  have ci0: "completed_instructions (complete_phase_p1 s0) =
      completed_instructions s @ filter (\<lambda>j. valid (reservation_station s ! j)
        \<and> fired (reservation_station s ! j) \<and> \<not> completed (reservation_station s ! j))
        [0..<length (reservation_station s)]"
    by (simp add: complete_phase_ci s0_def)
  have nq: "i \<notin> set (completed_instructions (complete_phase_p1 s0))"
    using nci e by (simp add: ci0 e_def)
  have "i \<notin> set (take (RESULT_BUSES cfg) (completed_instructions (complete_phase_p1 s0)))"
    using nq by (meson in_set_takeD)
  then have s1: "reservation_station s1 ! i = e"
    using ex(2) [of i] i e by (simp add: s0_def e_def complete_entry_p1_def)
  have len1: "length (reservation_station s1) = length (reservation_station s)"
    using ex(1) by (simp add: s0_def)
  define s2 where "s2 = schedule_stage_first_half_p1 s1"
  have s2: "reservation_station s2 ! i = e"
    using fire_rs_nth [of i s1] i len1 e s1
    by (auto simp: s2_def fire_rel_def)
  have len2: "length (reservation_station s2) = length (reservation_station s)"
    by (simp add: s2_def fire_rs_length len1)
  define s4 where "s4 = state_update_stage_second_half_p1 (dispatch_stage_first_half_p1 s2)"
  have s4: "reservation_station s4 ! i = e"
    using i len2 s2 e by (simp add: s4_def retire_rs reserve_frame retire_entry_p1_def)
  have len4: "length (reservation_station s4) = length (reservation_station s)"
    by (simp add: s4_def retire_rs reserve_frame len2)
  have bus4: "result_bus_tags s4 = result_bus_tags s1"
    by (simp add: s4_def s2_def retire_frame reserve_frame fire_frame)
  have s5eq: "s5 = schedule_stage_second_half_p1 s4"
    by (simp add: st(2) s4_def s2_def)
  have s5: "reservation_station s5 ! i =
      e\<lparr>src1_ready := src1_ready e \<or> src1_parent e \<in> set (result_bus_tags s1),
        src2_ready := src2_ready e \<or> src2_parent e \<in> set (result_bus_tags s1)\<rparr>"
    using i len4 s4 e by (simp add: s5eq wake_rs wake_entry_p1_def wake_fold bus4)
  have len5: "length (reservation_station s5) = length (reservation_station s)"
    by (simp add: s5eq wake_rs len4)
  note d = dispatch_stage_effect [OF st(3)]
  have s6: "reservation_station s6 ! i = reservation_station s5 ! i"
    using d i len5 s5 e by simp
  have bus6: "result_bus_tags s6 = result_bus_tags s1"
    using d by (simp add: s5eq wake_frame bus4)
  have bus: "result_bus_tags t = result_bus_tags s1"
    by (simp add: st(4) fetch_frame bus6)
  have ci: "completed_instructions t =
      drop (RESULT_BUSES cfg) (completed_instructions (complete_phase_p1 s0))"
    using d ex(4)
    by (simp add: st(4) fetch_frame s5eq wake_frame s4_def s2_def retire_frame reserve_frame
        fire_frame)
  have t: "reservation_station t ! i =
      e\<lparr>src1_ready := src1_ready e \<or> src1_parent e \<in> set (result_bus_tags t),
        src2_ready := src2_ready e \<or> src2_parent e \<in> set (result_bus_tags t)\<rparr>"
    by (simp add: st(4) fetch_frame s6 s5 bus6)
  have lent: "length (reservation_station t) = length (reservation_station s)"
    using d by (simp add: st(4) fetch_frame len5)
  show "\<not> fired (reservation_station t ! i)" "valid (reservation_station t ! i)"
    "instruction (reservation_station t ! i) = instruction (reservation_station s ! i)"
    "src1_parent (reservation_station t ! i) = src1_parent (reservation_station s ! i)"
    "src2_parent (reservation_station t ! i) = src2_parent (reservation_station s ! i)"
    "src1_ready (reservation_station t ! i) \<longleftrightarrow>
          src1_ready (reservation_station s ! i)
          \<or> src1_parent (reservation_station s ! i) \<in> set (result_bus_tags t)"
    "src2_ready (reservation_station t ! i) \<longleftrightarrow>
          src2_ready (reservation_station s ! i)
          \<or> src2_parent (reservation_station s ! i) \<in> set (result_bus_tags t)"
    using e by (simp_all add: t) (simp_all add: e_def)
  show "awaits_p1 t i p" if "p \<notin> set (result_bus_tags t)"
    using that e i nq
    by (auto simp: awaits_p1_def t lent ci Let_def dest: in_set_dropD)
qed

lemma and_then_Inr_right: "and_then r Inr = r"
  by (cases r) (simp_all add: and_then_def)

lemma cycles_p1_Suc:
  "cycles_p1 (Suc n) cfg s = Inr t \<longleftrightarrow>
     (\<exists>s1. cycle_p1 cfg s = Inr s1 \<and> cycles_p1 n cfg s1 = Inr t)"
  by (cases "cycle_p1 cfg s") (simp_all add: and_then_def)

lemma wake_entry_fields:
  "valid (wake_entry_p1 bus e) = valid e"
  "instruction (wake_entry_p1 bus e) = instruction e"
  "fired (wake_entry_p1 bus e) = fired e"
  "completed (wake_entry_p1 bus e) = completed e"
  "state_updated (wake_entry_p1 bus e) = state_updated e"
  "completed_cycle (wake_entry_p1 bus e) = completed_cycle e"
  "state_update_cycle (wake_entry_p1 bus e) = state_update_cycle e"
  "src1_parent (wake_entry_p1 bus e) = src1_parent e"
  "src2_parent (wake_entry_p1 bus e) = src2_parent e"
  by (simp_all add: wake_entry_p1_def wake_fold)

lemma complete_entry_fields:
  "valid (complete_entry_p1 c e) = valid e"
  "instruction (complete_entry_p1 c e) = instruction e"
  "fired (complete_entry_p1 c e) = fired e"
  "state_updated (complete_entry_p1 c e) = state_updated e"
  "state_update_cycle (complete_entry_p1 c e) = state_update_cycle e"
  "src1_ready (complete_entry_p1 c e) = src1_ready e"
  "src2_ready (complete_entry_p1 c e) = src2_ready e"
  "src1_parent (complete_entry_p1 c e) = src1_parent e"
  "src2_parent (complete_entry_p1 c e) = src2_parent e"
  "completed (complete_entry_p1 c e) \<longleftrightarrow> completed e \<or> (valid e \<and> fired e)"
  by (auto simp: complete_entry_p1_def)




section \<open>Wakeup latency\<close>

text \<open>C1 on part_002, procsim.cpp and part_001, on \<open>prog_pair\<close> (fetch width 2, one unit per
  pool, one result bus): the second instruction reads register 5, which the first
  writes. In all three the result bus is empty in the cycles 1 to 3 and carries the
  writer's tag 1 in cycle 4. part_002 fires the reader (tag 2) in cycle 3, one cycle
  before the broadcast of its source. procsim.cpp and part_001 fire it in cycle 5, the
  cycle after the broadcast.\<close>

theorem wakeup_latency_p2_failing_input:
  "dest_reg (prog_pair ! 0) = 5 \<and> src_reg0 (prog_pair ! 1) = 5
   \<and> map (\<lambda>n. bus_of (cycles_p2 n cfg_pair (setup_proc_p2 cfg_pair prog_pair))) [1, 2, 3, 4]
       = [Some [], Some [], Some [], Some [1]]
   \<and> log_of (cycles_p2 3 cfg_pair (setup_proc_p2 cfg_pair prog_pair)) =
       [(1, FETCHED, 1), (1, FETCHED, 2), (2, DISPATCHED, 1), (2, DISPATCHED, 2),
        (3, SCHEDULED, 1), (3, SCHEDULED, 2)]
   \<and> map (\<lambda>n. bus_of (cycles_ps n cfg_pair (setup_proc_ps cfg_pair prog_pair))) [1, 2, 3, 4]
       = [Some [], Some [], Some [], Some [1]]
   \<and> log_of (cycles_ps 5 cfg_pair (setup_proc_ps cfg_pair prog_pair)) =
       [(1, FETCHED, 1), (1, FETCHED, 2), (2, DISPATCHED, 1), (2, DISPATCHED, 2),
        (3, SCHEDULED, 1), (4, EXECUTED, 1), (5, STATE_UPDATE, 1), (5, SCHEDULED, 2)]
   \<and> map (\<lambda>n. bus_of (cycles_p1 n cfg_pair (setup_proc_p1 cfg_pair prog_pair))) [1, 2, 3, 4]
       = [Some [], Some [], Some [], Some [1]]
   \<and> log_of (cycles_p1 5 cfg_pair (setup_proc_p1 cfg_pair prog_pair)) =
       [(1, FETCHED, 1), (1, FETCHED, 2), (2, DISPATCHED, 1), (2, DISPATCHED, 2),
        (3, SCHEDULED, 1), (4, EXECUTED, 1), (5, SCHEDULED, 2), (5, STATE_UPDATE, 1)]"
  by (simp add: p1_defs p2_defs ps_defs run_defs cfg_pair_def prog_pair_def bus_of_def
      cong: and_then_weak_cong let_weak_cong)

text \<open>The wakeup of part_001 in general. Slot \<open>i\<close> holds an instruction that has not
  fired and is recorded as waiting for tag \<open>p\<close> on one of its sources. If \<open>p\<close> is on no result bus during the first \<open>n\<close> of
  \<open>n + 1\<close> consecutive cycles, then at the end of cycle \<open>n + 1\<close> the instruction is still
  in its slot and has not fired, whether or not \<open>p\<close> is broadcast in that last cycle. So
  an instruction never fires in or before the cycle of its producer's broadcast: the
  earliest cycle is the next one. If \<open>p\<close> is broadcast in the last cycle, the source is
  ready at its end, and otherwise the instruction goes on waiting.\<close>

lemma wakeup_latency_p1:
  assumes "awaits_p1 s i p"
    and "cycles_p1 (Suc n) cfg s = Inr t"
    and "\<And>k u. 0 < k \<Longrightarrow> k \<le> n \<Longrightarrow> cycles_p1 k cfg s = Inr u \<Longrightarrow> p \<notin> set (result_bus_tags u)"
  shows "\<not> fired (reservation_station t ! i) \<and> valid (reservation_station t ! i)
    \<and> instruction (reservation_station t ! i) = instruction (reservation_station s ! i)
    \<and> (p \<in> set (result_bus_tags t) \<longrightarrow>
         (src1_parent (reservation_station s ! i) = p \<longrightarrow> src1_ready (reservation_station t ! i))
         \<and> (src2_parent (reservation_station s ! i) = p \<longrightarrow> src2_ready (reservation_station t ! i)))
    \<and> (p \<notin> set (result_bus_tags t) \<longrightarrow> awaits_p1 t i p)"
  using assms
proof (induction n arbitrary: s)
  case 0
  from "0.prems"(2) [unfolded cycles_p1_Suc] have cyc: "cycle_p1 cfg s = Inr t"
    by simp
  show ?case
    using wakeup_step [OF "0.prems"(1) cyc] by simp
next
  case (Suc n)
  from Suc.prems(2) obtain s1 where s1: "cycle_p1 cfg s = Inr s1"
      "cycles_p1 (Suc n) cfg s1 = Inr t"
    using cycles_p1_Suc by blast
  have "cycles_p1 (Suc 0) cfg s = Inr s1"
    unfolding cycles_p1_Suc using s1(1) by simp
  then have quiet1: "p \<notin> set (result_bus_tags s1)"
    using Suc.prems(3) [of "Suc 0" s1] by simp
  note step = wakeup_step [OF Suc.prems(1) s1(1)]
  have aw1: "awaits_p1 s1 i p"
    using step(8) quiet1 by simp
  have quiet: "p \<notin> set (result_bus_tags u)"
    if "0 < k" "k \<le> n" "cycles_p1 k cfg s1 = Inr u" for k u
  proof -
    have "cycles_p1 (Suc k) cfg s = Inr u"
      using that(3) s1(1) cycles_p1_Suc by blast
    then show ?thesis
      using Suc.prems(3) [of "Suc k" u] that by simp
  qed
  show ?case
    using Suc.IH [OF aw1 s1(2) quiet] step(3,4,5) by simp
qed

lemma wakeup_latency_p1_example:
  "awaits_p1 pair_dispatched_p1 1 1
   \<and> (case cycles_p1 1 cfg_pair pair_dispatched_p1 of
         Inl e \<Rightarrow> False | Inr u \<Rightarrow> result_bus_tags u = [])
   \<and> (case cycles_p1 2 cfg_pair pair_dispatched_p1 of
         Inl e \<Rightarrow> False
       | Inr t \<Rightarrow> result_bus_tags t = [1] \<and> \<not> fired (reservation_station t ! 1)
           \<and> src1_ready (reservation_station t ! 1))"
proof -
  define t where "t = projr (cycles_p1 2 cfg_pair pair_dispatched_p1)"
  have aw: "awaits_p1 pair_dispatched_p1 1 1"
    by (simp add: awaits_p1_def pair_dispatched_p1_def p1_defs run_defs cfg_pair_def prog_pair_def
        cong: and_then_weak_cong let_weak_cong)
  have one: "(case cycles_p1 1 cfg_pair pair_dispatched_p1 of
         Inl e \<Rightarrow> False | Inr u \<Rightarrow> result_bus_tags u = [])"
    by (simp add: pair_dispatched_p1_def p1_defs run_defs cfg_pair_def prog_pair_def
        cong: and_then_weak_cong let_weak_cong)
  have two: "cycles_p1 (Suc 1) cfg_pair pair_dispatched_p1 = Inr t \<and> result_bus_tags t = [1]
      \<and> src1_parent (reservation_station pair_dispatched_p1 ! 1) = 1"
    by (simp add: t_def pair_dispatched_p1_def p1_defs run_defs cfg_pair_def prog_pair_def
        cong: and_then_weak_cong let_weak_cong)
  have quiet: "1 \<notin> set (result_bus_tags u)"
    if "0 < k" "k \<le> 1" "cycles_p1 k cfg_pair pair_dispatched_p1 = Inr u" for k u
  proof -
    have "k = 1" using that by simp
    then show ?thesis using one that(3) by simp
  qed
  have "\<not> fired (reservation_station t ! 1) \<and> src1_ready (reservation_station t ! 1)"
    using wakeup_latency_p1 [OF aw conjunct1 [OF two] quiet] two by simp
  then show ?thesis
    using aw one two by (simp add: numeral_2_eq_2)
qed

section \<open>Retirement\<close>



section \<open>The result bus of part_002\<close>

lemma complete_phase_p2_bus:
  "result_bus_tags (complete_phase_p2 s) = result_bus_tags s"
  unfolding complete_phase_p2_def
  by (rule fold_frame, simp add: complete_slot_p2_def Let_def)

lemma state_update_first_p2_bus:
  "result_bus_tags (state_update_stage_first_half_p2 s) = []"
  by (simp add: state_update_stage_first_half_p2_def)

lemma release_fu_p2_frame:
  "reservation_station (release_fu op s) = reservation_station s"
  "result_bus_tags (release_fu op s) = result_bus_tags s"
  by (simp_all add: release_fu_def)

lemma broadcast_loop_p2_bus:
  "broadcast_loop_p2 cfg xs s = Inr s' \<Longrightarrow>
     reservation_station s' = reservation_station s
     \<and> result_bus_tags s' = result_bus_tags s @
          map (\<lambda>i. tag (instruction (reservation_station s ! i)))
            (take (RESULT_BUSES cfg - length (result_bus_tags s)) xs)"
proof (induction xs arbitrary: s)
  case Nil
  then show ?case by simp
next
  case (Cons idx xs)
  show ?case
  proof (cases "length (result_bus_tags s) < RESULT_BUSES cfg")
    case False
    then show ?thesis using Cons.prems by simp
  next
    case True
    define e where "e = reservation_station s ! idx"
    define s2 where "s2 = release_fu (op_code (instruction e))
        (s\<lparr>result_bus_tags := result_bus_tags s @ [tag (instruction e)]\<rparr>)"
    define s3 where "s3 = (if dest_reg (instruction e) \<noteq> - 1
        then s2\<lparr>register_ready := (register_ready s2)(dest_reg (instruction e) := True)\<rparr>
        else s2)"
    have run: "broadcast_loop_p2 cfg xs s3 = Inr s'"
      using Cons.prems True
      by (auto simp: s3_def s2_def e_def Let_def split: if_splits)
    have s3: "reservation_station s3 = reservation_station s"
      "result_bus_tags s3 = result_bus_tags s @ [tag (instruction e)]"
      by (simp_all add: s3_def s2_def release_fu_p2_frame)
    obtain k where k: "RESULT_BUSES cfg - length (result_bus_tags s) = Suc k"
      using True by (metis Suc_diff_Suc)
    then have k': "RESULT_BUSES cfg - Suc (length (result_bus_tags s)) = k"
      by simp
    show ?thesis
      using Cons.IH [OF run] by (simp add: s3 k k' e_def)
  qed
qed

lemma fire_loop_p2_bus:
  "fire_loop_p2 cands s = Inr s' \<Longrightarrow> result_bus_tags s' = result_bus_tags s"
proof (induction cands arbitrary: s)
  case Nil
  then show ?case by simp
next
  case (Cons c cands)
  from Cons.prems obtain s1 where s1: "fire_p2 c s = Inr s1" "fire_loop_p2 cands s1 = Inr s'"
    by (auto simp: and_then_def split: sum.splits)
  have "result_bus_tags s1 = result_bus_tags s"
    using s1(1)
    by (auto simp: fire_p2_def acquire_fu_def Let_def split: if_splits prod.splits)
  then show ?case using Cons.IH [OF s1(2)] by simp
qed

lemma refresh_loop_p2_bus:
  "refresh_loop_p2 js s = Inr s' \<Longrightarrow> result_bus_tags s' = result_bus_tags s"
proof (induction js arbitrary: s)
  case Nil
  then show ?case by simp
next
  case (Cons j js)
  from Cons.prems obtain s1 where s1: "refresh_slot_p2 j s = Inr s1" "refresh_loop_p2 js s1 = Inr s'"
    by (auto simp: and_then_def split: sum.splits)
  have "result_bus_tags s1 = result_bus_tags s"
    using s1(1)
    by (auto simp: refresh_slot_p2_def and_then_def Let_def split: if_splits sum.splits)
  then show ?case using Cons.IH [OF s1(2)] by simp
qed

lemma dispatch_first_p2_bus:
  "result_bus_tags (dispatch_stage_first_half_p2 s) = result_bus_tags s"
  unfolding dispatch_stage_first_half_p2_def
  by (rule fold_frame, simp add: dispatch_slot_p2_def Let_def split: list.splits)

lemma fetch_p2_bus:
  "result_bus_tags (fetch_stage_p2 cfg s) = result_bus_tags s"
  unfolding fetch_stage_p2_def
  by (rule funpow_frame, simp add: fetch_one_p2_def split: list.splits)

lemma retire_p2_bus:
  "result_bus_tags (state_update_stage_second_half_p2 s) = result_bus_tags s"
  unfolding state_update_stage_second_half_p2_def
  by (rule fold_frame, simp add: retire_slot_p2_def Let_def)

lemma cycle_p2_bus:
  assumes "cycle_p2 cfg s = Inr t"
  shows "result_bus_tags t =
     map (\<lambda>i. tag (instruction (reservation_station (before_broadcast_p2 s) ! i)))
       (take (RESULT_BUSES cfg)
          (sort_key (bus_rank (before_broadcast_p2 s)) (completed_indices_p2 (before_broadcast_p2 s))))"
proof -
  define m where "m = before_broadcast_p2 s"
  from assms obtain s2 s3 s6 where st:
    "broadcast_phase_p2 cfg m = Inr s2"
    "schedule_stage_first_half_p2 s2 = Inr s3"
    "schedule_stage_second_half_p2 (fetch_stage_p2 cfg (dispatch_stage_first_half_p2 s3)) = Inr s6"
    "t = state_update_stage_second_half_p2 s6"
    by (auto simp: cycle_p2_def and_then_def Let_def execute_stage_first_half_p2_def
        m_def before_broadcast_p2_def split: sum.splits)
  have m0: "result_bus_tags m = []"
    by (simp add: m_def before_broadcast_p2_def complete_phase_p2_bus state_update_first_p2_bus)
  have "result_bus_tags s2 = map (\<lambda>i. tag (instruction (reservation_station m ! i)))
       (take (RESULT_BUSES cfg) (sort_key (bus_rank m) (completed_indices_p2 m)))"
    using broadcast_loop_p2_bus [OF st(1) [unfolded broadcast_phase_p2_def]] m0 by simp
  moreover have "result_bus_tags t = result_bus_tags s2"
    using fire_loop_p2_bus [OF st(2) [unfolded schedule_stage_first_half_p2_def]]
      refresh_loop_p2_bus [OF st(3) [unfolded schedule_stage_second_half_p2_def]]
    by (simp add: st(4) retire_p2_bus fetch_p2_bus dispatch_first_p2_bus)
  ultimately show ?thesis by (simp add: m_def)
qed

lemma take_sort_key_least:
  fixes f :: "'a \<Rightarrow> 'b::linorder" and n :: nat
  assumes "distinct xs"
  defines "chosen \<equiv> take n (sort_key f xs)"
  shows "distinct chosen" and "set chosen \<subseteq> set xs"
    and "length chosen = min n (length xs)"
    and "sorted (map f chosen)"
    and "\<forall>i\<in>set chosen. \<forall>j\<in>set xs - set chosen. f i \<le> f j"
proof -
  let ?ys = "sort_key f xs"
  show "distinct chosen" using assms by (simp add: chosen_def)
  show "set chosen \<subseteq> set xs"
    using set_take_subset [of n ?ys] by (simp add: chosen_def)
  show "length chosen = min n (length xs)"
    by (simp add: chosen_def min.commute)
  have srt: "sorted (map f (take n ?ys @ drop n ?ys))"
    by simp
  then show "sorted (map f chosen)"
    unfolding map_append sorted_append by (simp add: chosen_def)
  show "\<forall>i\<in>set chosen. \<forall>j\<in>set xs - set chosen. f i \<le> f j"
  proof (intro ballI)
    fix i j assume i: "i \<in> set chosen" and j: "j \<in> set xs - set chosen"
    have "set xs = set (take n ?ys) \<union> set (drop n ?ys)"
      by (metis append_take_drop_id set_append set_sort)
    then have "j \<in> set (drop n ?ys)" using j by (auto simp: chosen_def)
    then show "f i \<le> f j"
      using srt i unfolding map_append sorted_append by (auto simp: chosen_def)
  qed
qed

section \<open>The bus bound\<close>

text \<open>C4 on part_001, on \<open>prog_bus\<close> with one result bus. The tags 3 and 4 fire in cycle 6
  and both complete in cycle 7; tag 4 sits in slot 0, which tag 1 has left, and tag 3 in
  slot 2. part_001 puts the younger tag 4 on the bus in cycle 7 and the older tag 3 in
  cycle 8: its queue of completed instructions is filled in slot order and never sorted.
  part_002 and procsim.cpp, which sort the candidates by completion cycle and tag,
  broadcast tag 3 in cycle 7 and tag 4 in cycle 8.\<close>

theorem bus_order_p1_failing_input:
  "RESULT_BUSES cfg_bus = 1
   \<and> bus_view (cycles_p1 6 cfg_bus (setup_proc_p1 cfg_bus prog_bus)) =
       ([], [(True, 4, False, 0), (False, 2, True, 5), (True, 3, False, 0), (False, 0, False, 0)])
   \<and> bus_view (cycles_p1 7 cfg_bus (setup_proc_p1 cfg_bus prog_bus)) =
       ([4], [(True, 4, True, 7), (False, 2, True, 5), (True, 3, True, 7), (False, 0, False, 0)])
   \<and> bus_view (cycles_p1 8 cfg_bus (setup_proc_p1 cfg_bus prog_bus)) =
       ([3], [(False, 4, True, 7), (False, 2, True, 5), (True, 3, True, 7), (False, 0, False, 0)])
   \<and> bus_view (cycles_p2 7 cfg_bus (setup_proc_p2 cfg_bus prog_bus)) =
       ([3], [(False, 1, True, 4), (False, 2, True, 5), (True, 3, True, 7), (True, 4, True, 7)])
   \<and> bus_view (cycles_p2 8 cfg_bus (setup_proc_p2 cfg_bus prog_bus)) =
       ([4], [(False, 1, True, 4), (False, 2, True, 5), (False, 3, True, 7), (True, 4, True, 7)])
   \<and> bus_view (cycles_ps 7 cfg_bus (setup_proc_ps cfg_bus prog_bus)) =
       ([3], [(False, 1, True, 4), (False, 2, True, 5), (True, 3, True, 7), (True, 4, True, 7)])
   \<and> bus_view (cycles_ps 8 cfg_bus (setup_proc_ps cfg_bus prog_bus)) =
       ([4], [(False, 1, True, 4), (False, 2, True, 5), (False, 3, True, 7), (True, 4, True, 7)])"
  by (simp add: p1_defs p2_defs ps_defs run_defs cfg_bus_def prog_bus_def bus_view_def
      completion_view_def cong: and_then_weak_cong let_weak_cong)

text \<open>The selection of part_002 in general. In the cycle that starts in any state \<open>s\<close>,
  let \<open>m\<close> be the state in which the broadcast loop runs. The candidates are the
  occupied slots that are completed and not yet marked as state-updated. The tags put on the result bus in this
  cycle are those of a list \<open>chosen\<close> of candidates without repetition, of length
  the minimum of \<open>RESULT_BUSES\<close> and the number of candidates, in ascending order of
  (completion cycle, tag), and every candidate left out ranks at or after every chosen
  one. In particular at most \<open>RESULT_BUSES\<close> instructions broadcast.\<close>

lemma bus_selection_p2:
  assumes "cycle_p2 cfg s = Inr t"
  shows "length (result_bus_tags t) \<le> RESULT_BUSES cfg
    \<and> set (completed_indices_p2 (before_broadcast_p2 s)) =
        {i. i < length (reservation_station (before_broadcast_p2 s))
            \<and> valid (reservation_station (before_broadcast_p2 s) ! i)
            \<and> completed (reservation_station (before_broadcast_p2 s) ! i)
            \<and> \<not> state_updated (reservation_station (before_broadcast_p2 s) ! i)}
    \<and> (\<exists>chosen.
          result_bus_tags t =
            map (\<lambda>i. tag (instruction (reservation_station (before_broadcast_p2 s) ! i))) chosen
          \<and> distinct chosen
          \<and> set chosen \<subseteq> set (completed_indices_p2 (before_broadcast_p2 s))
          \<and> length chosen =
              min (RESULT_BUSES cfg) (length (completed_indices_p2 (before_broadcast_p2 s)))
          \<and> sorted (map (\<lambda>i. (completed_cycle (reservation_station (before_broadcast_p2 s) ! i),
                               tag (instruction (reservation_station (before_broadcast_p2 s) ! i))))
                      chosen)
          \<and> (\<forall>i\<in>set chosen. \<forall>j\<in>set (completed_indices_p2 (before_broadcast_p2 s)) - set chosen.
                (completed_cycle (reservation_station (before_broadcast_p2 s) ! i),
                 tag (instruction (reservation_station (before_broadcast_p2 s) ! i)))
                \<le> (completed_cycle (reservation_station (before_broadcast_p2 s) ! j),
                    tag (instruction (reservation_station (before_broadcast_p2 s) ! j)))))"
proof -
  define m where "m = before_broadcast_p2 s"
  define chosen where "chosen = take (RESULT_BUSES cfg) (sort_key (bus_rank m) (completed_indices_p2 m))"
  have d: "distinct (completed_indices_p2 m)"
    by (simp add: completed_indices_p2_def)
  have rank: "bus_rank m = (\<lambda>i. (completed_cycle (reservation_station m ! i),
      tag (instruction (reservation_station m ! i))))"
    by (rule ext) (simp add: bus_rank_def)
  note sel = take_sort_key_least [OF d, where n = "RESULT_BUSES cfg" and f = "bus_rank m",
      folded chosen_def, unfolded rank]
  have bus: "result_bus_tags t = map (\<lambda>i. tag (instruction (reservation_station m ! i))) chosen"
    using cycle_p2_bus [OF assms] by (simp add: m_def chosen_def)
  have "length (result_bus_tags t) \<le> RESULT_BUSES cfg"
    using sel(3) by (simp add: bus)
  moreover have "set (completed_indices_p2 m) =
        {i. i < length (reservation_station m) \<and> valid (reservation_station m ! i)
            \<and> completed (reservation_station m ! i) \<and> \<not> state_updated (reservation_station m ! i)}"
    by (auto simp: completed_indices_p2_def Let_def)
  ultimately show ?thesis
    unfolding m_def [symmetric] using bus sel by blast
qed

lemma bus_selection_p2_example:
  "completed_indices_p2 (before_broadcast_p2 writers_fired_p2) = [0, 1]
   \<and> map (bus_rank (before_broadcast_p2 writers_fired_p2)) [0, 1] = [(4, 1), (4, 2)]
   \<and> (case cycle_p2 cfg_writers writers_fired_p2 of
         Inl e \<Rightarrow> False
       | Inr t \<Rightarrow> result_bus_tags t = [1]
           \<and> length (result_bus_tags t) \<le> RESULT_BUSES cfg_writers)"
proof -
  define t where "t = projr (cycle_p2 cfg_writers writers_fired_p2)"
  have ev: "completed_indices_p2 (before_broadcast_p2 writers_fired_p2) = [0, 1]"
    "map (bus_rank (before_broadcast_p2 writers_fired_p2)) [0, 1] = [(4, 1), (4, 2)]"
    by (simp_all add: before_broadcast_p2_def writers_fired_p2_def p2_defs run_defs
        cfg_writers_def prog_writers_def cong: and_then_weak_cong let_weak_cong)
  have cyc: "cycle_p2 cfg_writers writers_fired_p2 = Inr t \<and> result_bus_tags t = [1]"
    by (simp add: t_def writers_fired_p2_def p2_defs run_defs cfg_writers_def prog_writers_def
        cong: and_then_weak_cong let_weak_cong)
  have "length (result_bus_tags t) \<le> RESULT_BUSES cfg_writers"
    using bus_selection_p2 [OF conjunct1 [OF cyc]] by simp
  then show ?thesis
    using ev cyc by simp
qed

lemma read_ready_p2_ok:
  "r = - 1 \<or> reg_ok r \<Longrightarrow> read_ready_p2 s r = Inr (r = - 1 \<or> register_ready s r)"
  by (auto simp: read_ready_p2_def)

lemmas p2_sym_defs = cycle_p2_def execute_stage_first_half_p2_def broadcast_phase_p2_def
  complete_phase_p2_def complete_slot_p2_def completed_indices_p2_def bus_rank_def
  schedule_stage_first_half_p2_def ready_instructions_p2_def fire_p2_def
  dispatch_stage_first_half_p2_def dispatch_slot_p2_def state_update_stage_first_half_p2_def
  state_update_tag_p2_def find_slot_def state_update_stage_second_half_p2_def retire_slot_p2_def
  schedule_stage_second_half_p2_def refresh_slot_p2_def fetch_stage_p2_def
  fetch_one_p2_def setup_proc_p2_def

lemmas run_sym_defs = and_then_Inr and_then_Inl acquire_fu_def release_fu_def fu_type_def
  rs_size_small rs_zero_def inst_zero_def
  upt_rec numeral_eq_Suc Let_def done_test_def all_rs_empty_def

section \<open>Scenario 1\<close>

lemma source_ready_ps_single:
  assumes "r = - 1 \<or> reg_ok r"
    and "register_last_state_updated s r = 0"
    and "register_in_flight_writers s r \<subseteq> {Suc 0}"
  shows "source_ready_ps s (Suc 0) r = Inr True"
  using assms by (auto simp: source_ready_ps_def Let_def)

lemmas ps_sym_defs = stamp_def cycles_zero_def setup_proc_ps_def fetch_one_ps_def
  fetch_stage_ps_def dispatch_slot_ps_def dispatch_stage_first_half_ps_def fire_ps_def
  schedule_stage_first_half_ps_def complete_entry_ps_def completing_indices_ps_def
  executed_rank_def executed_event_ps_def complete_phase_ps_def broadcast_phase_ps_def
  execute_stage_first_half_ps_def tag_with_completion_ps_def state_update_tag_ps_def
  state_update_stage_first_half_ps_def cycle_ps_def completed_indices_p2_def bus_rank_def
  find_slot_def state_update_stage_second_half_p2_def retire_slot_p2_def
  schedule_stage_second_half_p2_def refresh_slot_p2_def

text \<open>C7, amended, on procsim.cpp and part_002. Fetch width 1, one unit in every pool, one result
  bus, and a trace of one instruction, of any of the opcodes \<open>-1\<close>, 0, 1, 2 and any
  registers of the file (or none). Whatever the absent reader answers for a null pointer
  while input remains, the run ends after cycle 5 with one instruction retired, and the
  events of tag 1 are: fetched in cycle 1, dispatched in cycle 2, fired in cycle 3,
  completed in cycle 4, retired in cycle 5. The result bus is empty after cycle 3 and
  carries tag 1 after cycle 4, when nothing has retired yet. In procsim.cpp the table of
  cycle stamps holds the same five cycles for tag 1.\<close>

theorem scenario_one:
  assumes op: "op_code i = - 1 \<or> op_code i = 0 \<or> op_code i = 1 \<or> op_code i = 2"
    and s0: "src_reg0 i = - 1 \<or> reg_ok (src_reg0 i)"
    and s1: "src_reg1 i = - 1 \<or> reg_ok (src_reg1 i)"
    and d: "dest_reg i = - 1 \<or> reg_ok (dest_reg i)"
    and probe: "\<not> probe []"
  shows "((case cycles_ps 3 cfg_unit (setup_proc_ps cfg_unit [i]) of
           Inl e \<Rightarrow> False | Inr u \<Rightarrow> result_bus_tags u = [])
    \<and> (case cycles_ps 4 cfg_unit (setup_proc_ps cfg_unit [i]) of
           Inl e \<Rightarrow> False | Inr u \<Rightarrow> result_bus_tags u = [1] \<and> instructions_retired u = 0)
    \<and> (case run_proc_ps (5 + k) probe cfg_unit (setup_proc_ps cfg_unit [i]) of
           Inl e \<Rightarrow> False
         | Inr t \<Rightarrow> logging t = [(1, FETCHED, 1), (2, DISPATCHED, 1), (3, SCHEDULED, 1),
               (4, EXECUTED, 1), (5, STATE_UPDATE, 1)]
             \<and> instruction_cycles t 1 = Some \<lparr>fetch = 1, dispatch = 2, schedule = 3,
                 execute = 4, state_update = 5\<rparr>
             \<and> current_cycle t = 5 \<and> instructions_retired t = 1))
   \<and> ((case cycles_p2 3 cfg_unit (setup_proc_p2 cfg_unit [i]) of
           Inl e \<Rightarrow> False | Inr u \<Rightarrow> result_bus_tags u = [])
    \<and> (case cycles_p2 4 cfg_unit (setup_proc_p2 cfg_unit [i]) of
           Inl e \<Rightarrow> False | Inr u \<Rightarrow> result_bus_tags u = [1] \<and> instructions_retired u = 0)
    \<and> (case run_proc_p2 (5 + k) probe cfg_unit (setup_proc_p2 cfg_unit [i]) of
           Inl e \<Rightarrow> False
         | Inr t \<Rightarrow> logging t = [(1, FETCHED, 1), (2, DISPATCHED, 1), (3, SCHEDULED, 1),
               (4, EXECUTED, 1), (5, STATE_UPDATE, 1)]
             \<and> current_cycle t = 5 \<and> instructions_retired t = 1))"
proof (rule conjI)
  show "(case cycles_ps 3 cfg_unit (setup_proc_ps cfg_unit [i]) of
           Inl e \<Rightarrow> False | Inr u \<Rightarrow> result_bus_tags u = [])
    \<and> (case cycles_ps 4 cfg_unit (setup_proc_ps cfg_unit [i]) of
           Inl e \<Rightarrow> False | Inr u \<Rightarrow> result_bus_tags u = [1] \<and> instructions_retired u = 0)
    \<and> (case run_proc_ps (5 + k) probe cfg_unit (setup_proc_ps cfg_unit [i]) of
           Inl e \<Rightarrow> False
         | Inr t \<Rightarrow> logging t = [(1, FETCHED, 1), (2, DISPATCHED, 1), (3, SCHEDULED, 1),
               (4, EXECUTED, 1), (5, STATE_UPDATE, 1)]
             \<and> instruction_cycles t 1 = Some \<lparr>fetch = 1, dispatch = 2, schedule = 3,
                 execute = 4, state_update = 5\<rparr>
             \<and> current_cycle t = 5 \<and> instructions_retired t = 1)"
  proof (cases "dest_reg i = - 1")
    case True
    show ?thesis
      using op True probe
      by (elim disjE)
         (simp_all add: ps_sym_defs run_sym_defs cfg_unit_def read_ready_p2_ok [OF s0]
            read_ready_p2_ok [OF s1] source_ready_ps_single [OF s0]
            source_ready_ps_single [OF s1] cong: and_then_weak_cong let_weak_cong)
  next
    case False
    then have "reg_ok (dest_reg i)" using d by simp
    then show ?thesis
      using op False probe
      by (elim disjE)
         (simp_all add: ps_sym_defs run_sym_defs cfg_unit_def read_ready_p2_ok [OF s0]
            read_ready_p2_ok [OF s1] source_ready_ps_single [OF s0]
            source_ready_ps_single [OF s1] cong: and_then_weak_cong let_weak_cong)
  qed
  show "(case cycles_p2 3 cfg_unit (setup_proc_p2 cfg_unit [i]) of
           Inl e \<Rightarrow> False | Inr u \<Rightarrow> result_bus_tags u = [])
    \<and> (case cycles_p2 4 cfg_unit (setup_proc_p2 cfg_unit [i]) of
           Inl e \<Rightarrow> False | Inr u \<Rightarrow> result_bus_tags u = [1] \<and> instructions_retired u = 0)
    \<and> (case run_proc_p2 (5 + k) probe cfg_unit (setup_proc_p2 cfg_unit [i]) of
           Inl e \<Rightarrow> False
         | Inr t \<Rightarrow> logging t = [(1, FETCHED, 1), (2, DISPATCHED, 1), (3, SCHEDULED, 1),
               (4, EXECUTED, 1), (5, STATE_UPDATE, 1)]
             \<and> current_cycle t = 5 \<and> instructions_retired t = 1)"
  proof (cases "dest_reg i = - 1")
    case True
    show ?thesis
      using op True probe
      by (elim disjE)
         (simp_all add: p2_sym_defs run_sym_defs cfg_unit_def read_ready_p2_ok [OF s0]
            read_ready_p2_ok [OF s1] cong: and_then_weak_cong let_weak_cong)
  next
    case False
    then have "reg_ok (dest_reg i)" using d by simp
    then show ?thesis
      using op False probe
      by (elim disjE)
         (simp_all add: p2_sym_defs run_sym_defs cfg_unit_def read_ready_p2_ok [OF s0]
            read_ready_p2_ok [OF s1] cong: and_then_weak_cong let_weak_cong)
  qed
qed

theorem scenario_one_witness:
  "op_code (insn 0 (- 1) (- 1) 5) = 0 \<and> reg_ok (dest_reg (insn 0 (- 1) (- 1) 5))
   \<and> \<not> more_input []
   \<and> (case run_proc_ps 5 more_input cfg_unit (setup_proc_ps cfg_unit [insn 0 (- 1) (- 1) 5]) of
         Inl e \<Rightarrow> False
       | Inr t \<Rightarrow> instruction_cycles t 1 = Some \<lparr>fetch = 1, dispatch = 2, schedule = 3,
                 execute = 4, state_update = 5\<rparr>
           \<and> current_cycle t = 5 \<and> instructions_retired t = 1)
   \<and> (case run_proc_p2 5 more_input cfg_unit (setup_proc_p2 cfg_unit [insn 0 (- 1) (- 1) 5]) of
         Inl e \<Rightarrow> False
       | Inr t \<Rightarrow> logging t = [(1, FETCHED, 1), (2, DISPATCHED, 1), (3, SCHEDULED, 1),
             (4, EXECUTED, 1), (5, STATE_UPDATE, 1)]
           \<and> current_cycle t = 5 \<and> instructions_retired t = 1)"
proof -
  have "op_code (insn 0 (- 1) (- 1) 5) = 0" "reg_ok (dest_reg (insn 0 (- 1) (- 1) 5))"
      "src_reg0 (insn 0 (- 1) (- 1) 5) = - 1" "src_reg1 (insn 0 (- 1) (- 1) 5) = - 1"
      "\<not> more_input []"
    by (simp_all add: insn_def reg_ok_def NUM_REGISTERS_def more_input_def)
  with scenario_one [of "insn 0 (- 1) (- 1) 5" more_input 0] show ?thesis
    by (cases "run_proc_ps 5 more_input cfg_unit (setup_proc_ps cfg_unit [insn 0 (- 1) (- 1) 5])";
        cases "run_proc_p2 5 more_input cfg_unit (setup_proc_p2 cfg_unit [insn 0 (- 1) (- 1) 5])")
       simp_all
qed

text \<open>A loop that stays in a set of states where the test of \<^verbatim>\<open>done\<close> fails reaches
  every ceiling; so does a loop that gets into such a set after some cycles.\<close>

lemma run_proc_ps_stuck:
  assumes step: "\<And>s. P s \<Longrightarrow> \<exists>t. cycle_ps cfg s = Inr t \<and> P t \<and> \<not> done_test probe t"
    and "P s"
  shows "run_proc_ps k probe cfg s = Inl CycleCeiling"
  using assms(2)
proof (induction k arbitrary: s)
  case 0
  show ?case by simp
next
  case (Suc k)
  from step [OF Suc.prems]
  obtain t where t: "cycle_ps cfg s = Inr t" "P t" "\<not> done_test probe t" by blast
  from Suc.IH [OF t(2)] show ?case by (simp add: t and_then_Inr)
qed

lemma run_proc_p2_stuck:
  assumes step: "\<And>s. P s \<Longrightarrow> \<exists>t. cycle_p2 cfg s = Inr t \<and> P t \<and> \<not> done_test probe t"
    and "P s"
  shows "run_proc_p2 k probe cfg s = Inl CycleCeiling"
  using assms(2)
proof (induction k arbitrary: s)
  case 0
  show ?case by simp
next
  case (Suc k)
  from step [OF Suc.prems]
  obtain t where t: "cycle_p2 cfg s = Inr t" "P t" "\<not> done_test probe t" by blast
  from Suc.IH [OF t(2)] show ?case by (simp add: t and_then_Inr)
qed

lemma run_proc_ps_prefix:
  assumes "cycles_ps j cfg s = Inr u"
    and "\<And>i. 0 < i \<Longrightarrow> i \<le> j \<Longrightarrow> \<exists>v. cycles_ps i cfg s = Inr v \<and> \<not> done_test probe v"
    and "\<And>k. run_proc_ps k probe cfg u = Inl CycleCeiling"
  shows "run_proc_ps k probe cfg s = Inl CycleCeiling"
  using assms(1,2)
proof (induction j arbitrary: s k)
  case 0
  then show ?case using assms(3) by simp
next
  case (Suc j)
  from Suc.prems(1) obtain s1 where s1: "cycle_ps cfg s = Inr s1" "cycles_ps j cfg s1 = Inr u"
    by (cases "cycle_ps cfg s") (simp_all add: and_then_def)
  have nd: "\<not> done_test probe s1"
    using Suc.prems(2) [of 1] by (simp add: s1(1) and_then_Inr)
  have "\<exists>v. cycles_ps i cfg s1 = Inr v \<and> \<not> done_test probe v" if "0 < i" "i \<le> j" for i
    using Suc.prems(2) [of "Suc i"] that by (simp add: s1(1) and_then_Inr)
  note ih = Suc.IH [OF s1(2) this]
  show ?case
  proof (cases k)
    case 0
    then show ?thesis by simp
  next
    case (Suc k')
    then show ?thesis using ih [of k'] nd by (simp add: s1(1) and_then_Inr)
  qed
qed

lemma run_proc_p2_prefix:
  assumes "cycles_p2 j cfg s = Inr u"
    and "\<And>i. 0 < i \<Longrightarrow> i \<le> j \<Longrightarrow> \<exists>v. cycles_p2 i cfg s = Inr v \<and> \<not> done_test probe v"
    and "\<And>k. run_proc_p2 k probe cfg u = Inl CycleCeiling"
  shows "run_proc_p2 k probe cfg s = Inl CycleCeiling"
  using assms(1,2)
proof (induction j arbitrary: s k)
  case 0
  then show ?case using assms(3) by simp
next
  case (Suc j)
  from Suc.prems(1) obtain s1 where s1: "cycle_p2 cfg s = Inr s1" "cycles_p2 j cfg s1 = Inr u"
    by (cases "cycle_p2 cfg s") (simp_all add: and_then_def)
  have nd: "\<not> done_test probe s1"
    using Suc.prems(2) [of 1] by (simp add: s1(1) and_then_Inr)
  have "\<exists>v. cycles_p2 i cfg s1 = Inr v \<and> \<not> done_test probe v" if "0 < i" "i \<le> j" for i
    using Suc.prems(2) [of "Suc i"] that by (simp add: s1(1) and_then_Inr)
  note ih = Suc.IH [OF s1(2) this]
  show ?case
  proof (cases k)
    case 0
    then show ?thesis by simp
  next
    case (Suc k')
    then show ?thesis using ih [of k'] nd by (simp add: s1(1) and_then_Inr)
  qed
qed

lemma never_fires_cycle_ps:
  assumes "never_fires s"
  shows "\<exists>t. cycle_ps cfg_unit s = Inr t \<and> never_fires t \<and> \<not> done_test probe t"
proof -
  from assms obtain e where s: "trace s = []" "dispatch_queue s = []" "result_bus_tags s = []"
      "reservation_station s = [e, rs_zero, rs_zero, rs_zero, rs_zero, rs_zero]"
      "valid e" "\<not> fired e" "\<not> completed e" "\<not> state_updated e"
      "op_code (instruction e) = 3"
      "src_reg0 (instruction e) = - 1" "src_reg1 (instruction e) = - 1"
    by (auto simp: never_fires_def)
  have z: "\<not> valid rs_zero" by (simp add: rs_zero_def)
  show ?thesis
    using s z
    by (simp add: ps_defs completed_indices_p2_def schedule_stage_second_half_p2_def
        refresh_slot_p2_def state_update_stage_second_half_p2_def retire_slot_p2_def
        read_ready_p2_def acquire_fu_def fu_type_def
        never_fires_def cfg_unit_def and_then_Inr and_then_Inl upt_rec numeral_eq_Suc
        Let_def done_test_def all_rs_empty_def
        cong: and_then_weak_cong let_weak_cong)
qed

lemma never_fires_cycle_p2:
  assumes "never_fires s"
  shows "\<exists>t. cycle_p2 cfg_unit s = Inr t \<and> never_fires t \<and> \<not> done_test probe t"
proof -
  from assms obtain e where s: "trace s = []" "dispatch_queue s = []" "result_bus_tags s = []"
      "reservation_station s = [e, rs_zero, rs_zero, rs_zero, rs_zero, rs_zero]"
      "valid e" "\<not> fired e" "\<not> completed e" "\<not> state_updated e"
      "op_code (instruction e) = 3"
      "src_reg0 (instruction e) = - 1" "src_reg1 (instruction e) = - 1"
    by (auto simp: never_fires_def)
  have z: "\<not> valid rs_zero" by (simp add: rs_zero_def)
  show ?thesis
    using s z
    by (simp add: p2_defs acquire_fu_def fu_type_def
        never_fires_def cfg_unit_def and_then_Inr and_then_Inl upt_rec numeral_eq_Suc
        Let_def done_test_def all_rs_empty_def
        cong: and_then_weak_cong let_weak_cong)
qed

lemma opcode_three_forever_ps:
  "run_proc_ps k more_input cfg_unit (setup_proc_ps cfg_unit [insn 3 (- 1) (- 1) (- 1)])
     = Inl CycleCeiling"
proof -
  define s0 where "s0 = setup_proc_ps cfg_unit [insn 3 (- 1) (- 1) (- 1)]"
  have one: "case cycles_ps 1 cfg_unit s0 of Inl e \<Rightarrow> False
      | Inr u \<Rightarrow> \<not> done_test more_input u"
    unfolding s0_def
    by (simp add: ps_defs p2_defs run_defs cfg_unit_def
        cong: and_then_weak_cong let_weak_cong)
  have two: "case cycles_ps 2 cfg_unit s0 of Inl e \<Rightarrow> False
      | Inr u \<Rightarrow> never_fires u \<and> \<not> done_test more_input u"
    unfolding s0_def
    by (simp add: ps_defs p2_defs run_defs cfg_unit_def never_fires_def
        cong: and_then_weak_cong let_weak_cong)
  then obtain u where u: "cycles_ps 2 cfg_unit s0 = Inr u" "never_fires u"
      "\<not> done_test more_input u"
    by (cases "cycles_ps 2 cfg_unit s0") simp_all
  have early: "\<exists>v. cycles_ps i cfg_unit s0 = Inr v \<and> \<not> done_test more_input v"
    if "0 < i" "i \<le> 2" for i
  proof -
    from that consider "i = 1" | "i = 2" by force
    then show ?thesis
    proof cases
      case 1
      then show ?thesis using one by (cases "cycles_ps 1 cfg_unit s0") simp_all
    next
      case 2
      then show ?thesis using u by simp
    qed
  qed
  have late: "run_proc_ps k more_input cfg_unit u = Inl CycleCeiling" for k
    by (rule run_proc_ps_stuck [where P = never_fires, OF never_fires_cycle_ps u(2)])
  show ?thesis
    unfolding s0_def [symmetric] by (rule run_proc_ps_prefix [OF u(1) early late])
qed

lemma opcode_three_forever_p2:
  "run_proc_p2 k more_input cfg_unit (setup_proc_p2 cfg_unit [insn 3 (- 1) (- 1) (- 1)])
     = Inl CycleCeiling"
proof -
  define s0 where "s0 = setup_proc_p2 cfg_unit [insn 3 (- 1) (- 1) (- 1)]"
  have one: "case cycles_p2 1 cfg_unit s0 of Inl e \<Rightarrow> False
      | Inr u \<Rightarrow> \<not> done_test more_input u"
    unfolding s0_def
    by (simp add: p2_defs run_defs cfg_unit_def
        cong: and_then_weak_cong let_weak_cong)
  have two: "case cycles_p2 2 cfg_unit s0 of Inl e \<Rightarrow> False
      | Inr u \<Rightarrow> never_fires u \<and> \<not> done_test more_input u"
    unfolding s0_def
    by (simp add: p2_defs run_defs cfg_unit_def never_fires_def
        cong: and_then_weak_cong let_weak_cong)
  then obtain u where u: "cycles_p2 2 cfg_unit s0 = Inr u" "never_fires u"
      "\<not> done_test more_input u"
    by (cases "cycles_p2 2 cfg_unit s0") simp_all
  have early: "\<exists>v. cycles_p2 i cfg_unit s0 = Inr v \<and> \<not> done_test more_input v"
    if "0 < i" "i \<le> 2" for i
  proof -
    from that consider "i = 1" | "i = 2" by force
    then show ?thesis
    proof cases
      case 1
      then show ?thesis using one by (cases "cycles_p2 1 cfg_unit s0") simp_all
    next
      case 2
      then show ?thesis using u by simp
    qed
  qed
  have late: "run_proc_p2 k more_input cfg_unit u = Inl CycleCeiling" for k
    by (rule run_proc_p2_stuck [where P = never_fires, OF never_fires_cycle_p2 u(2)])
  show ?thesis
    unfolding s0_def [symmetric] by (rule run_proc_p2_prefix [OF u(1) early late])
qed

text \<open>C7, as stated, fails: the single instruction may have opcode 3, which belongs to no
  pool. In procsim.cpp and in part_002 it is fetched in cycle 1 and dispatched in cycle
  2, and then never fires: after cycle 5 it is still in its slot, not fired, nothing was
  on the result bus and nothing has retired; the loop of \<^verbatim>\<open>run_proc\<close> reaches every
  ceiling. In procsim.cpp the table of cycle stamps holds the schedule cycle 3 that the
  dispatch wrote in advance, and no cycle of execution or state update.\<close>

theorem scenario_one_counterexample:
  "(\<forall>k. run_proc_ps k more_input cfg_unit (setup_proc_ps cfg_unit [insn 3 (- 1) (- 1) (- 1)])
        = Inl CycleCeiling)
   \<and> (case cycles_ps 5 cfg_unit (setup_proc_ps cfg_unit [insn 3 (- 1) (- 1) (- 1)]) of
         Inl e \<Rightarrow> False
       | Inr u \<Rightarrow> logging u = [(1, FETCHED, 1), (2, DISPATCHED, 1)]
           \<and> instruction_cycles u 1 = Some \<lparr>fetch = 1, dispatch = 2, schedule = 3,
                execute = 0, state_update = 0\<rparr>
           \<and> map slot_view (filter valid (reservation_station u)) = [(True, 1, 3, True, False)]
           \<and> result_bus_tags u = [] \<and> instructions_retired u = 0)
   \<and> (\<forall>k. run_proc_p2 k more_input cfg_unit (setup_proc_p2 cfg_unit [insn 3 (- 1) (- 1) (- 1)])
        = Inl CycleCeiling)
   \<and> (case cycles_p2 5 cfg_unit (setup_proc_p2 cfg_unit [insn 3 (- 1) (- 1) (- 1)]) of
         Inl e \<Rightarrow> False
       | Inr u \<Rightarrow> logging u = [(1, FETCHED, 1), (2, DISPATCHED, 1)]
           \<and> map slot_view (filter valid (reservation_station u)) = [(True, 1, 3, True, False)]
           \<and> result_bus_tags u = [] \<and> instructions_retired u = 0)"
proof (intro conjI allI)
  show "run_proc_ps k more_input cfg_unit (setup_proc_ps cfg_unit [insn 3 (- 1) (- 1) (- 1)])
        = Inl CycleCeiling" for k
    by (rule opcode_three_forever_ps)
  show "run_proc_p2 k more_input cfg_unit (setup_proc_p2 cfg_unit [insn 3 (- 1) (- 1) (- 1)])
        = Inl CycleCeiling" for k
    by (rule opcode_three_forever_p2)
  show "case cycles_ps 5 cfg_unit (setup_proc_ps cfg_unit [insn 3 (- 1) (- 1) (- 1)]) of
         Inl e \<Rightarrow> False
       | Inr u \<Rightarrow> logging u = [(1, FETCHED, 1), (2, DISPATCHED, 1)]
           \<and> instruction_cycles u 1 = Some \<lparr>fetch = 1, dispatch = 2, schedule = 3,
                execute = 0, state_update = 0\<rparr>
           \<and> map slot_view (filter valid (reservation_station u)) = [(True, 1, 3, True, False)]
           \<and> result_bus_tags u = [] \<and> instructions_retired u = 0"
    by (simp add: ps_defs p2_defs run_defs cfg_unit_def
        cong: and_then_weak_cong let_weak_cong)
  show "case cycles_p2 5 cfg_unit (setup_proc_p2 cfg_unit [insn 3 (- 1) (- 1) (- 1)]) of
         Inl e \<Rightarrow> False
       | Inr u \<Rightarrow> logging u = [(1, FETCHED, 1), (2, DISPATCHED, 1)]
           \<and> map slot_view (filter valid (reservation_station u)) = [(True, 1, 3, True, False)]
           \<and> result_bus_tags u = [] \<and> instructions_retired u = 0"
    by (simp add: p2_defs run_defs cfg_unit_def
        cong: and_then_weak_cong let_weak_cong)
qed

section \<open>Register indices stay in bounds\<close>

lemma in_bounds_setup: "\<forall>i\<in>set input. regs_ok i \<Longrightarrow> in_bounds_p1 (setup_proc_p1 cfg input)"
  by (simp add: in_bounds_p1_def setup_proc_p1_def rs_zero_def inst_zero_def regs_ok_def
      reg_ok_def NUM_REGISTERS_def)

lemma broadcast_loop_ok:
  assumes "\<forall>e\<in>set (reservation_station s). regs_ok (instruction e)"
    and "\<forall>p\<in>set (completed_instructions s). p < length (reservation_station s)"
  shows "\<exists>s'. broadcast_loop_p1 n s = Inr s'"
  using assms
proof (induction n arbitrary: s)
  case 0
  then show ?case by simp
next
  case (Suc n)
  show ?case
  proof (cases "completed_instructions s")
    case Nil
    then show ?thesis by simp
  next
    case (Cons p rest)
    define e where "e = reservation_station s ! p"
    define s1 where "s1 = s\<lparr>completed_instructions := rest,
        result_bus_tags := result_bus_tags s @ [tag (instruction e)],
        reservation_station := (reservation_station s)
          [p := e\<lparr>state_updated := True, state_update_cycle := current_cycle s\<rparr>]\<rparr>"
    define s2 where "s2 = release_fu (op_code (instruction e))
        (if dest_reg (instruction e) \<noteq> - 1
            \<and> tag_reg (register_status s1 (dest_reg (instruction e))) = tag (instruction e)
         then s1\<lparr>register_status := (register_status s1)
                (dest_reg (instruction e) :=
                   (register_status s1 (dest_reg (instruction e)))\<lparr>ready := True\<rparr>)\<rparr>
         else s1)"
    have p: "p < length (reservation_station s)"
      using Suc.prems(2) Cons by simp
    then have ok: "regs_ok (instruction e)"
      using Suc.prems(1) by (simp add: e_def)
    have step: "broadcast_loop_p1 (Suc n) s = broadcast_loop_p1 n s2"
      using p ok Cons
      by (auto simp: s2_def s1_def e_def Let_def regs_ok_def)
    have s2: "reservation_station s2 =
        (reservation_station s)[p := e\<lparr>state_updated := True, state_update_cycle := current_cycle s\<rparr>]"
      "completed_instructions s2 = rest"
      by (simp_all add: s2_def s1_def release_fu_frame)
    have "\<forall>e\<in>set (reservation_station s2). regs_ok (instruction e)"
      using Suc.prems(1) ok unfolding s2
      by (auto dest!: set_update_subset_insert [THEN subsetD])
    moreover have "\<forall>p\<in>set (completed_instructions s2). p < length (reservation_station s2)"
      using Suc.prems(2) Cons by (simp add: s2)
    ultimately show ?thesis
      unfolding step by (rule Suc.IH)
  qed
qed

lemma in_bounds_nth:
  "(\<forall>e\<in>set (reservation_station s). regs_ok (instruction e)) \<longleftrightarrow>
   (\<forall>j<length (reservation_station s). regs_ok (instruction (reservation_station s ! j)))"
  by (simp add: all_set_conv_all_nth)

lemma execute_stage_ok:
  assumes "in_bounds_p1 s"
  shows "\<exists>s'. execute_stage_first_half_p1 cfg s = Inr s' \<and> in_bounds_p1 s'"
proof -
  define m where "m = (complete_phase_p1 s)\<lparr>result_bus_tags := []\<rparr>"
  have m: "reservation_station m = map (complete_entry_p1 (current_cycle s)) (reservation_station s)"
    "completed_instructions m = completed_instructions s @
       filter (\<lambda>i. valid (reservation_station s ! i) \<and> fired (reservation_station s ! i)
                 \<and> \<not> completed (reservation_station s ! i))
         [0..<length (reservation_station s)]"
    by (simp_all add: m_def complete_phase_rs complete_phase_ci)
  have "\<exists>s'. broadcast_loop_p1 (RESULT_BUSES cfg) m = Inr s'"
    using assms
    by (intro broadcast_loop_ok) (auto simp: m in_bounds_p1_def complete_entry_fields)
  then obtain s' where s': "execute_stage_first_half_p1 cfg s = Inr s'"
    by (auto simp: execute_stage_first_half_p1_def broadcast_phase_p1_def m_def)
  note ex = execute_stage_effect [OF s']
  have "regs_ok (instruction (reservation_station s' ! j))" if "j < length (reservation_station s)" for j
    using that assms ex(2) [OF that]
    by (auto simp: in_bounds_p1_def complete_entry_fields)
  moreover have "\<forall>p\<in>set (completed_instructions s'). p < length (reservation_station s')"
    using assms ex(1,4) by (auto simp: in_bounds_p1_def complete_phase_ci dest!: in_set_dropD)
  ultimately have "in_bounds_p1 s'"
    using assms ex(1,6,7) by (simp add: in_bounds_p1_def in_bounds_nth)
  then show ?thesis using s' by blast
qed

lemma fire_stage_ok:
  assumes "in_bounds_p1 s"
  shows "in_bounds_p1 (schedule_stage_first_half_p1 s)"
proof -
  have "regs_ok (instruction (reservation_station (schedule_stage_first_half_p1 s) ! j))"
    if "j < length (reservation_station s)" for j
    using assms that fire_rel_fields(2) [OF fire_rs_nth [OF that]]
    by (simp add: in_bounds_p1_def)
  then show ?thesis
    using assms by (simp add: in_bounds_p1_def in_bounds_nth fire_rs_length fire_frame)
qed

lemma reserve_stage_ok: "in_bounds_p1 (dispatch_stage_first_half_p1 s) = in_bounds_p1 s"
  by (simp add: in_bounds_p1_def reserve_frame)

lemma retire_entry_instruction: "instruction (retire_entry_p1 c e) = instruction e"
  by (simp add: retire_entry_p1_def)

lemma retire_stage_ok:
  "in_bounds_p1 s \<Longrightarrow> in_bounds_p1 (state_update_stage_second_half_p1 s)"
  by (simp add: in_bounds_p1_def retire_rs retire_frame retire_entry_instruction)

lemma wake_stage_ok:
  "in_bounds_p1 s \<Longrightarrow> in_bounds_p1 (schedule_stage_second_half_p1 s)"
  by (simp add: in_bounds_p1_def wake_rs wake_frame wake_entry_fields)

lemma dispatch_slot_ok:
  assumes "regs_ok (hd (dispatch_queue s))"
  shows "\<exists>s'. dispatch_slot_p1 i s = Inr s'"
  using assms
  by (auto simp: dispatch_slot_p1_def read_status_p1_def and_then_def Let_def regs_ok_def)

lemma dispatch_entry_instruction: "instruction (dispatch_entry_p1 regs i e) = i"
  by (simp add: dispatch_entry_p1_def)

lemma dispatch_loop_ok:
  assumes "in_bounds_p1 s"
  shows "\<exists>s'. dispatch_loop_p1 js s = Inr s' \<and> in_bounds_p1 s'"
  using assms
proof (induction js arbitrary: s)
  case Nil
  then show ?case by simp
next
  case (Cons i js)
  show ?case
  proof (cases "reserved_slots s = 0 \<or> dispatch_queue s = []")
    case True
    then show ?thesis using Cons.prems by auto
  next
    case False
    show ?thesis
    proof (cases "valid (reservation_station s ! i)")
      case True
      then show ?thesis using Cons False by simp
    next
      case inv: False
      have hd: "regs_ok (hd (dispatch_queue s))"
        using Cons.prems False by (cases "dispatch_queue s") (auto simp: in_bounds_p1_def)
      then obtain s1 where s1: "dispatch_slot_p1 i s = Inr s1"
        using dispatch_slot_ok by blast
      note e = dispatch_slot_effect [OF s1]
      have "in_bounds_p1 s1"
        using Cons.prems hd False
        by (auto simp: in_bounds_p1_def e dispatch_entry_instruction
            dest!: set_update_subset_insert [THEN subsetD] list.set_sel(2) [rotated])
      from Cons.IH [OF this] show ?thesis
        using False inv s1 by (simp add: and_then_def)
    qed
  qed
qed

lemma fetch_stage_ok:
  assumes "in_bounds_p1 s"
  shows "in_bounds_p1 (fetch_stage_p1 cfg s)"
proof -
  have one: "in_bounds_p1 (fetch_one_p1 t)" if "in_bounds_p1 t" for t
    using that by (auto simp: in_bounds_p1_def fetch_one_p1_def regs_ok_def split: list.splits)
  have "in_bounds_p1 ((fetch_one_p1 ^^ n) s)" for n
    by (induction n) (simp_all add: assms one)
  then show ?thesis by (simp add: fetch_stage_p1_def)
qed

lemma cycle_p1_ok:
  assumes "in_bounds_p1 s"
  shows "\<exists>t. cycle_p1 cfg s = Inr t \<and> in_bounds_p1 t"
proof -
  have "in_bounds_p1 (s\<lparr>current_cycle := current_cycle s + 1\<rparr>)"
    using assms by (simp add: in_bounds_p1_def)
  then obtain s1 where s1:
    "execute_stage_first_half_p1 cfg (s\<lparr>current_cycle := current_cycle s + 1\<rparr>) = Inr s1"
    "in_bounds_p1 s1"
    using execute_stage_ok by blast
  define s5 where "s5 = schedule_stage_second_half_p1 (state_update_stage_second_half_p1
            (dispatch_stage_first_half_p1 (schedule_stage_first_half_p1 s1)))"
  have "in_bounds_p1 s5"
    unfolding s5_def
    by (intro wake_stage_ok retire_stage_ok) (simp add: reserve_stage_ok fire_stage_ok s1(2))
  then obtain s6 where s6: "dispatch_stage_second_half_p1 s5 = Inr s6" "in_bounds_p1 s6"
    unfolding dispatch_stage_second_half_p1_def using dispatch_loop_ok by blast
  have "cycle_p1 cfg s = Inr (fetch_stage_p1 cfg s6)"
    using s1(1) s6(1) by (simp add: cycle_p1_def and_then_def Let_def s5_def)
  then show ?thesis
    using fetch_stage_ok [OF s6(2)] by blast
qed

lemma cycles_p1_ok:
  "in_bounds_p1 s \<Longrightarrow> \<exists>t. cycles_p1 n cfg s = Inr t \<and> in_bounds_p1 t"
proof (induction n arbitrary: s)
  case 0
  then show ?case by simp
next
  case (Suc n)
  from cycle_p1_ok [OF Suc.prems] obtain s1 where "cycle_p1 cfg s = Inr s1" "in_bounds_p1 s1"
    by blast
  then show ?case
    using Suc.IH [of s1] by (simp add: and_then_def)
qed

lemma run_proc_p1_ok:
  "in_bounds_p1 s \<Longrightarrow> run_proc_p1 n probe cfg s \<noteq> Inl IndexOutOfRange"
proof (induction n arbitrary: s)
  case 0
  then show ?case by simp
next
  case (Suc n)
  from cycle_p1_ok [OF Suc.prems] obtain s1 where "cycle_p1 cfg s = Inr s1" "in_bounds_p1 s1"
    by blast
  then show ?case
    using Suc.IH [of s1] by (simp add: and_then_def)
qed

subsection \<open>part_002\<close>

lemma fold_inv:
  assumes "\<And>i s. P s \<Longrightarrow> P (body i s)" and "P s"
  shows "P (fold body xs s)"
  using assms(2) by (induction xs arbitrary: s) (simp_all add: assms(1))

lemma set_update_ok:
  assumes "\<forall>e\<in>set xs. P e" and "P x"
  shows "\<forall>e\<in>set (xs[i := x]). P e"
  using assms set_update_subset_insert [of xs i x] by auto

lemma in_bounds_p2_setup:
  "\<forall>i\<in>set input. regs_ok i \<Longrightarrow> in_bounds_p2 (setup_proc_p2 cfg input)"
  by (simp add: in_bounds_p2_def setup_proc_p2_def rs_zero_def inst_zero_def regs_ok_def
      reg_ok_def NUM_REGISTERS_def)

lemma in_bounds_p2_update:
  assumes "in_bounds_p2 s" and "regs_ok (instruction e)"
  shows "in_bounds_p2 (s\<lparr>reservation_station := (reservation_station s)[i := e]\<rparr>)"
  using assms set_update_ok [of "reservation_station s" "\<lambda>e. regs_ok (instruction e)" e i]
  by (simp add: in_bounds_p2_def)

lemma in_bounds_p2_nth:
  "in_bounds_p2 s \<Longrightarrow> i < length (reservation_station s) \<Longrightarrow>
   regs_ok (instruction (reservation_station s ! i))"
  by (simp add: in_bounds_p2_def)

lemma find_slot_less: "find_slot rs t = Some i \<Longrightarrow> i < length rs"
proof -
  assume a: "find_slot rs t = Some i"
  then obtain js where "filter (\<lambda>i. valid (rs ! i) \<and> tag (instruction (rs ! i)) = t) [0..<length rs] = i # js"
    by (auto simp: find_slot_def split: list.splits)
  then have "i \<in> set (filter (\<lambda>i. valid (rs ! i) \<and> tag (instruction (rs ! i)) = t) [0..<length rs])"
    by simp
  then show ?thesis by simp
qed

lemma state_update_first_p2_ok:
  assumes "in_bounds_p2 s"
  shows "in_bounds_p2 (state_update_stage_first_half_p2 s)"
proof -
  have one: "in_bounds_p2 (state_update_tag_p2 t u)" if u: "in_bounds_p2 u" for t u
  proof (cases "find_slot (reservation_station u) t")
    case None
    then show ?thesis using u by (simp add: state_update_tag_p2_def in_bounds_p2_def)
  next
    case (Some i)
    have "regs_ok (instruction ((reservation_station u ! i)\<lparr>state_updated := True\<rparr>))"
      using in_bounds_p2_nth [OF u find_slot_less [OF Some]] by simp
    from in_bounds_p2_update [OF u this, of i] show ?thesis
      using Some by (simp add: state_update_tag_p2_def in_bounds_p2_def)
  qed
  have "in_bounds_p2 (fold state_update_tag_p2 (result_bus_tags s) s)"
    by (rule fold_inv [where P = in_bounds_p2]) (simp_all add: one assms)
  then show ?thesis
    by (simp add: state_update_stage_first_half_p2_def in_bounds_p2_def)
qed

lemma fold_upt_inv:
  assumes "\<And>i s. i < length (reservation_station s) \<Longrightarrow> P s \<Longrightarrow>
      P (body i s) \<and> length (reservation_station (body i s)) = length (reservation_station s)"
    and "P s"
  shows "P (fold body [0..<length (reservation_station s)] s)"
proof -
  define n where "n = length (reservation_station s)"
  have "P (fold body [0..<n] s) \<and> length (reservation_station (fold body [0..<n] s)) = n"
    by (rule fold_upt_induct [where Q = "\<lambda>i t. P t \<and> length (reservation_station t) = n"])
       (use assms in \<open>auto simp: n_def\<close>)
  then show ?thesis by (simp add: n_def)
qed

lemma complete_phase_p2_ok:
  assumes "in_bounds_p2 s"
  shows "in_bounds_p2 (complete_phase_p2 s)"
  unfolding complete_phase_p2_def
proof (rule fold_upt_inv [where P = in_bounds_p2, OF _ assms])
  fix i u assume i: "i < length (reservation_station u)" and u: "in_bounds_p2 u"
  note ok = in_bounds_p2_nth [OF u i]
  have a: "in_bounds_p2 (u\<lparr>reservation_station := (reservation_station u)[i := e]\<rparr>)"
    if "instruction e = instruction (reservation_station u ! i)" for e
    using in_bounds_p2_update [OF u, of e i] ok that by simp
  show "in_bounds_p2 (complete_slot_p2 i u) \<and>
      length (reservation_station (complete_slot_p2 i u)) = length (reservation_station u)"
    using u a [of "(reservation_station u ! i)\<lparr>execute_cycles_left := execute_cycles_left (reservation_station u ! i) - 1,
          completed := True, completed_cycle := current_cycle u\<rparr>"]
      a [of "(reservation_station u ! i)\<lparr>execute_cycles_left := execute_cycles_left (reservation_station u ! i) - 1\<rparr>"]
    by (simp add: complete_slot_p2_def Let_def in_bounds_p2_def)
qed

lemma release_fu_in_bounds_p2: "in_bounds_p2 (release_fu op s) = in_bounds_p2 s"
  by (simp add: in_bounds_p2_def release_fu_def)

lemma broadcast_loop_p2_ok:
  assumes "in_bounds_p2 s" and "\<forall>idx\<in>set xs. idx < length (reservation_station s)"
  shows "\<exists>s'. broadcast_loop_p2 cfg xs s = Inr s' \<and> in_bounds_p2 s'"
  using assms
proof (induction xs arbitrary: s)
  case Nil
  then show ?case by simp
next
  case (Cons idx xs)
  show ?case
  proof (cases "length (result_bus_tags s) < RESULT_BUSES cfg")
    case False
    then show ?thesis using Cons.prems by simp
  next
    case True
    define e where "e = reservation_station s ! idx"
    define s2 where "s2 = release_fu (op_code (instruction e))
        (s\<lparr>result_bus_tags := result_bus_tags s @ [tag (instruction e)]\<rparr>)"
    define s3 where "s3 = (if dest_reg (instruction e) \<noteq> - 1
        then s2\<lparr>register_ready := (register_ready s2)(dest_reg (instruction e) := True)\<rparr>
        else s2)"
    have ok: "regs_ok (instruction e)"
      using in_bounds_p2_nth [OF Cons.prems(1), of idx] Cons.prems(2) by (simp add: e_def)
    have step: "broadcast_loop_p2 cfg (idx # xs) s = broadcast_loop_p2 cfg xs s3"
      using True ok by (auto simp: s3_def s2_def e_def Let_def regs_ok_def)
    have "in_bounds_p2 s2"
      using Cons.prems(1) by (simp add: s2_def release_fu_in_bounds_p2) (simp add: in_bounds_p2_def)
    then have b3: "in_bounds_p2 s3"
      by (simp add: s3_def in_bounds_p2_def)
    have "reservation_station s3 = reservation_station s"
      by (simp add: s3_def s2_def release_fu_frame)
    then have "\<forall>idx\<in>set xs. idx < length (reservation_station s3)"
      using Cons.prems(2) by simp
    from Cons.IH [OF b3 this] show ?thesis
      unfolding step .
  qed
qed

lemma execute_stage_p2_ok:
  assumes "in_bounds_p2 s"
  shows "\<exists>s'. execute_stage_first_half_p2 cfg s = Inr s' \<and> in_bounds_p2 s'"
  unfolding execute_stage_first_half_p2_def broadcast_phase_p2_def
  by (rule broadcast_loop_p2_ok [OF complete_phase_p2_ok [OF assms]])
     (simp add: completed_indices_p2_def)

lemma acquire_fu_in_bounds_p2: "in_bounds_p2 (snd (acquire_fu op s)) = in_bounds_p2 s"
  by (simp add: in_bounds_p2_def acquire_fu_frame)

lemma fire_p2_ok:
  assumes "in_bounds_p2 s" and "snd c < length (reservation_station s)"
  shows "\<exists>s'. fire_p2 c s = Inr s' \<and> in_bounds_p2 s'
    \<and> length (reservation_station s') = length (reservation_station s)"
proof -
  define e where "e = reservation_station s ! snd c"
  obtain b s1 where a: "acquire_fu (op_code (instruction e)) s = (b, s1)"
    by force
  have s1: "in_bounds_p2 s1" "reservation_station s1 = reservation_station s"
    using acquire_fu_in_bounds_p2 [of "op_code (instruction e)" s]
      acquire_fu_frame(4) [of "op_code (instruction e)" s] a assms(1) by simp_all
  have ok: "regs_ok (instruction e)"
    using in_bounds_p2_nth [OF assms] by (simp add: e_def)
  have upd: "in_bounds_p2 (s1\<lparr>reservation_station := (reservation_station s1)
      [snd c := e\<lparr>fired := True, execute_cycles_left := 1\<rparr>]\<rparr>)"
    using in_bounds_p2_update [OF s1(1), of "e\<lparr>fired := True, execute_cycles_left := 1\<rparr>" "snd c"] ok
    by simp
  show ?thesis
    using ok s1 upd
    by (auto simp: fire_p2_def Let_def a e_def [symmetric] regs_ok_def in_bounds_p2_def)
qed

lemma fire_loop_p2_ok:
  assumes "in_bounds_p2 s" and "\<forall>c\<in>set cands. snd c < length (reservation_station s)"
  shows "\<exists>s'. fire_loop_p2 cands s = Inr s' \<and> in_bounds_p2 s'"
  using assms
proof (induction cands arbitrary: s)
  case Nil
  then show ?case by simp
next
  case (Cons c cands)
  from fire_p2_ok [OF Cons.prems(1), of c] Cons.prems(2)
  obtain s1 where s1: "fire_p2 c s = Inr s1" "in_bounds_p2 s1"
      "length (reservation_station s1) = length (reservation_station s)"
    by auto
  have "\<forall>c\<in>set cands. snd c < length (reservation_station s1)"
    using Cons.prems(2) s1(3) by simp
  from Cons.IH [OF s1(2) this] show ?case
    using s1(1) by (simp add: and_then_def)
qed

lemma schedule_first_p2_ok:
  assumes "in_bounds_p2 s"
  shows "\<exists>s'. schedule_stage_first_half_p2 s = Inr s' \<and> in_bounds_p2 s'"
  unfolding schedule_stage_first_half_p2_def
  by (rule fire_loop_p2_ok [OF assms]) (auto simp: ready_instructions_p2_def)

lemma dispatch_first_p2_ok:
  assumes "in_bounds_p2 s"
  shows "in_bounds_p2 (dispatch_stage_first_half_p2 s)"
  unfolding dispatch_stage_first_half_p2_def
proof (rule fold_upt_inv [where P = in_bounds_p2, OF _ assms])
  fix i u assume i: "i < length (reservation_station u)" and u: "in_bounds_p2 u"
  show "in_bounds_p2 (dispatch_slot_p2 i u) \<and>
      length (reservation_station (dispatch_slot_p2 i u)) = length (reservation_station u)"
  proof (cases "dispatch_queue u")
    case Nil
    then show ?thesis using u by (simp add: dispatch_slot_p2_def)
  next
    case (Cons x rest)
    define e where "e = (reservation_station u ! i)\<lparr>instruction := x, valid := True,
        src1_ready := False, src2_ready := False, fired := False, completed := False,
        execute_cycles_left := 0\<rparr>"
    have x: "regs_ok x" "\<forall>i\<in>set rest. regs_ok i"
      using u Cons by (simp_all add: in_bounds_p2_def)
    have "in_bounds_p2 (u\<lparr>reservation_station := (reservation_station u)[i := e]\<rparr>)"
      using in_bounds_p2_update [OF u, of e i] x by (simp add: e_def)
    then show ?thesis
      using u x Cons by (simp add: dispatch_slot_p2_def Let_def e_def in_bounds_p2_def)
  qed
qed

lemma fetch_p2_ok:
  assumes "in_bounds_p2 s"
  shows "in_bounds_p2 (fetch_stage_p2 cfg s)"
proof -
  have one: "in_bounds_p2 (fetch_one_p2 t)" if "in_bounds_p2 t" for t
    using that by (auto simp: in_bounds_p2_def fetch_one_p2_def regs_ok_def split: list.splits)
  have "in_bounds_p2 ((fetch_one_p2 ^^ n) s)" for n
    by (induction n) (simp_all add: assms one)
  then show ?thesis by (simp add: fetch_stage_p2_def)
qed

lemma refresh_slot_p2_ok:
  assumes "in_bounds_p2 s" and "i < length (reservation_station s)"
  shows "\<exists>s'. refresh_slot_p2 i s = Inr s' \<and> in_bounds_p2 s'
    \<and> length (reservation_station s') = length (reservation_station s)"
proof -
  define e where "e = reservation_station s ! i"
  have ok: "regs_ok (instruction e)"
    using in_bounds_p2_nth [OF assms] by (simp add: e_def)
  have upd: "in_bounds_p2 (s\<lparr>reservation_station := (reservation_station s)
      [i := e\<lparr>src1_ready := r1, src2_ready := r2\<rparr>]\<rparr>)" for r1 r2
    using in_bounds_p2_update [OF assms(1), of "e\<lparr>src1_ready := r1, src2_ready := r2\<rparr>" i] ok
    by simp
  show ?thesis
    using ok assms(1) upd
    by (auto simp: refresh_slot_p2_def read_ready_p2_def and_then_def Let_def e_def [symmetric]
        regs_ok_def)
qed

lemma refresh_loop_p2_ok:
  assumes "in_bounds_p2 s" and "\<forall>j\<in>set js. j < length (reservation_station s)"
  shows "\<exists>s'. refresh_loop_p2 js s = Inr s' \<and> in_bounds_p2 s'"
  using assms
proof (induction js arbitrary: s)
  case Nil
  then show ?case by simp
next
  case (Cons j js)
  from refresh_slot_p2_ok [OF Cons.prems(1), of j] Cons.prems(2)
  obtain s1 where s1: "refresh_slot_p2 j s = Inr s1" "in_bounds_p2 s1"
      "length (reservation_station s1) = length (reservation_station s)"
    by auto
  have "\<forall>j\<in>set js. j < length (reservation_station s1)"
    using Cons.prems(2) s1(3) by simp
  from Cons.IH [OF s1(2) this] show ?case
    using s1(1) by (simp add: and_then_def)
qed

lemma schedule_second_p2_ok:
  assumes "in_bounds_p2 s"
  shows "\<exists>s'. schedule_stage_second_half_p2 s = Inr s' \<and> in_bounds_p2 s'"
  unfolding schedule_stage_second_half_p2_def
  by (rule refresh_loop_p2_ok [OF assms]) simp

lemma retire_p2_ok:
  assumes "in_bounds_p2 s"
  shows "in_bounds_p2 (state_update_stage_second_half_p2 s)"
  unfolding state_update_stage_second_half_p2_def
proof (rule fold_upt_inv [where P = in_bounds_p2, OF _ assms])
  fix i u assume i: "i < length (reservation_station u)" and u: "in_bounds_p2 u"
  have "in_bounds_p2 (u\<lparr>reservation_station := (reservation_station u)
      [i := (reservation_station u ! i)\<lparr>valid := False, state_updated := False\<rparr>]\<rparr>)"
    using in_bounds_p2_update [OF u, of "(reservation_station u ! i)\<lparr>valid := False, state_updated := False\<rparr>" i]
      in_bounds_p2_nth [OF u i] by simp
  then show "in_bounds_p2 (retire_slot_p2 i u) \<and>
      length (reservation_station (retire_slot_p2 i u)) = length (reservation_station u)"
    using u by (simp add: retire_slot_p2_def Let_def in_bounds_p2_def)
qed

lemma cycle_p2_ok:
  assumes "in_bounds_p2 s"
  shows "\<exists>t. cycle_p2 cfg s = Inr t \<and> in_bounds_p2 t"
proof -
  have "in_bounds_p2 (s\<lparr>current_cycle := current_cycle s + 1\<rparr>)"
    using assms by (simp add: in_bounds_p2_def)
  from execute_stage_p2_ok [OF state_update_first_p2_ok [OF this]]
  obtain s2 where s2: "execute_stage_first_half_p2 cfg
      (state_update_stage_first_half_p2 (s\<lparr>current_cycle := current_cycle s + 1\<rparr>)) = Inr s2"
      "in_bounds_p2 s2"
    by blast
  from schedule_first_p2_ok [OF s2(2)]
  obtain s3 where s3: "schedule_stage_first_half_p2 s2 = Inr s3" "in_bounds_p2 s3"
    by blast
  from schedule_second_p2_ok [OF fetch_p2_ok [OF dispatch_first_p2_ok [OF s3(2)]]]
  obtain s6 where s6: "schedule_stage_second_half_p2
      (fetch_stage_p2 cfg (dispatch_stage_first_half_p2 s3)) = Inr s6" "in_bounds_p2 s6"
    by blast
  have "cycle_p2 cfg s = Inr (state_update_stage_second_half_p2 s6)"
    using s2(1) s3(1) s6(1) by (simp add: cycle_p2_def and_then_def Let_def)
  then show ?thesis
    using retire_p2_ok [OF s6(2)] by blast
qed

lemma cycles_p2_ok:
  "in_bounds_p2 s \<Longrightarrow> \<exists>t. cycles_p2 n cfg s = Inr t \<and> in_bounds_p2 t"
proof (induction n arbitrary: s)
  case 0
  then show ?case by simp
next
  case (Suc n)
  from cycle_p2_ok [OF Suc.prems] obtain s1 where "cycle_p2 cfg s = Inr s1" "in_bounds_p2 s1"
    by blast
  then show ?case
    using Suc.IH [of s1] by (simp add: and_then_def)
qed

lemma run_proc_p2_ok:
  "in_bounds_p2 s \<Longrightarrow> run_proc_p2 n probe cfg s \<noteq> Inl IndexOutOfRange"
proof (induction n arbitrary: s)
  case 0
  then show ?case by simp
next
  case (Suc n)
  from cycle_p2_ok [OF Suc.prems] obtain s1 where "cycle_p2 cfg s = Inr s1" "in_bounds_p2 s1"
    by blast
  then show ?case
    using Suc.IH [of s1] by (simp add: and_then_def)
qed

section \<open>Termination: lists\<close>





lemma length_filter_cong:
  assumes "\<And>x. x \<in> set xs \<Longrightarrow> P x = Q x"
  shows "length (filter P xs) = length (filter Q xs)"
  using assms by (induction xs) auto


section \<open>Termination: the state update, first half\<close>






lemma mark_fields [simp]:
  "valid (mark_entry T e) = valid e"
  "instruction (mark_entry T e) = instruction e"
  "fired (mark_entry T e) = fired e"
  "completed (mark_entry T e) = completed e"
  "execute_cycles_left (mark_entry T e) = execute_cycles_left e"
  by (simp_all add: mark_entry_def)

lemma tags_distinct_mark [simp]:
  "tags_distinct (map (mark_entry T) rs) = tags_distinct rs"
  by (simp add: tags_distinct_def)










section \<open>Termination: the execute stage\<close>




lemma complete_entry_ps_fields [simp]:
  "valid (complete_entry_ps c e) = valid e"
  "instruction (complete_entry_ps c e) = instruction e"
  "fired (complete_entry_ps c e) = fired e"
  "state_updated (complete_entry_ps c e) = state_updated e"
  by (simp_all add: complete_entry_ps_def)






lemma complete_phase_ps_frame:
  "reservation_station (complete_phase_ps s) =
     map (complete_entry_ps (current_cycle s)) (reservation_station s)"
  "result_bus_tags (complete_phase_ps s) = result_bus_tags s"
  "trace (complete_phase_ps s) = trace s"
  "dispatch_queue (complete_phase_ps s) = dispatch_queue s"
  "global_tag_counter (complete_phase_ps s) = global_tag_counter s"
  "instructions_retired (complete_phase_ps s) = instructions_retired s"
  "current_cycle (complete_phase_ps s) = current_cycle s"
  "register_in_flight_writers (complete_phase_ps s) = register_in_flight_writers s"
  "k0_fu_available (complete_phase_ps s) = k0_fu_available s"
  "k1_fu_available (complete_phase_ps s) = k1_fu_available s"
  "k2_fu_available (complete_phase_ps s) = k2_fu_available s"
  unfolding complete_phase_ps_def Let_def
  by (simp_all add: fold_frame executed_event_ps_def)


lemma broadcast_loop_Cons:
  "broadcast_loop_ps cfg used (idx # rest) s =
     (if used \<ge> RESULT_BUSES cfg then s
      else broadcast_loop_ps cfg (used + 1) rest (put_on_bus idx s))"
  by (simp add: put_on_bus_def Let_def)


lemma put_on_bus_frame:
  "reservation_station (put_on_bus idx s) = reservation_station s"
  "result_bus_tags (put_on_bus idx s) =
     result_bus_tags s @ [tag (instruction (reservation_station s ! idx))]"
  "trace (put_on_bus idx s) = trace s"
  "dispatch_queue (put_on_bus idx s) = dispatch_queue s"
  "global_tag_counter (put_on_bus idx s) = global_tag_counter s"
  "instructions_retired (put_on_bus idx s) = instructions_retired s"
  "current_cycle (put_on_bus idx s) = current_cycle s"
  "register_in_flight_writers (put_on_bus idx s) = register_in_flight_writers s"
  by (simp_all add: put_on_bus_def release_fu_def)





section \<open>Termination: the fire phase\<close>


lemma source_ready_ok:
  assumes "r = - 1 \<or> reg_ok r"
  shows "\<exists>b. source_ready_ps s t r = Inr b
     \<and> (\<not> b \<longrightarrow> (\<exists>w\<in>register_in_flight_writers s r. w < t))"
  using assms by (auto simp: source_ready_ps_def Let_def)

lemma ready_instructions_effect:
  assumes regs: "\<forall>e\<in>set (reservation_station s). regs_ok (instruction e)"
    and idxs: "\<forall>i\<in>set idxs. i < length (reservation_station s)"
  shows "\<exists>cands. ready_instructions_ps idxs s = Inr cands
     \<and> (\<forall>c\<in>set cands. snd c \<in> set idxs
          \<and> valid (reservation_station s ! snd c) \<and> \<not> fired (reservation_station s ! snd c)
          \<and> \<not> completed (reservation_station s ! snd c))
     \<and> (distinct idxs \<longrightarrow> distinct (map snd cands))
     \<and> (\<forall>i\<in>set idxs.
          valid (reservation_station s ! i) \<and> \<not> fired (reservation_station s ! i)
          \<and> \<not> completed (reservation_station s ! i)
          \<and> \<not> (\<exists>w\<in>register_in_flight_writers s (src_reg0 (instruction (reservation_station s ! i))).
                 w < tag (instruction (reservation_station s ! i)))
          \<and> \<not> (\<exists>w\<in>register_in_flight_writers s (src_reg1 (instruction (reservation_station s ! i))).
                 w < tag (instruction (reservation_station s ! i)))
          \<longrightarrow> (\<exists>c\<in>set cands. snd c = i))"
  using idxs
proof (induction idxs)
  case Nil
  then show ?case by simp
next
  case (Cons i rest)
  define e where "e = reservation_station s ! i"
  from Cons obtain more where more: "ready_instructions_ps rest s = Inr more"
      "\<forall>c\<in>set more. snd c \<in> set rest
          \<and> valid (reservation_station s ! snd c) \<and> \<not> fired (reservation_station s ! snd c)
          \<and> \<not> completed (reservation_station s ! snd c)"
      "distinct rest \<longrightarrow> distinct (map snd more)"
      "\<forall>i\<in>set rest.
          valid (reservation_station s ! i) \<and> \<not> fired (reservation_station s ! i)
          \<and> \<not> completed (reservation_station s ! i)
          \<and> \<not> (\<exists>w\<in>register_in_flight_writers s (src_reg0 (instruction (reservation_station s ! i))).
                 w < tag (instruction (reservation_station s ! i)))
          \<and> \<not> (\<exists>w\<in>register_in_flight_writers s (src_reg1 (instruction (reservation_station s ! i))).
                 w < tag (instruction (reservation_station s ! i)))
          \<longrightarrow> (\<exists>c\<in>set more. snd c = i)"
    by auto
  show ?case
  proof (cases "\<not> valid e \<or> fired e \<or> completed e")
    case True
    then have "ready_instructions_ps (i # rest) s = Inr more"
      by (simp add: e_def [symmetric] more(1))
    then show ?thesis
      using more(2,3,4) True by (auto simp: e_def)
  next
    case False
    have ok: "regs_ok (instruction e)"
      using regs Cons.prems by (simp add: e_def)
    from source_ready_ok [of "src_reg0 (instruction e)" s "tag (instruction e)"] ok
    obtain b1 where b1: "source_ready_ps s (tag (instruction e)) (src_reg0 (instruction e)) = Inr b1"
        "\<not> b1 \<longrightarrow> (\<exists>w\<in>register_in_flight_writers s (src_reg0 (instruction e)).
           w < tag (instruction e))"
      by (auto simp: regs_ok_def)
    from source_ready_ok [of "src_reg1 (instruction e)" s "tag (instruction e)"] ok
    obtain b2 where b2: "source_ready_ps s (tag (instruction e)) (src_reg1 (instruction e)) = Inr b2"
        "\<not> b2 \<longrightarrow> (\<exists>w\<in>register_in_flight_writers s (src_reg1 (instruction e)).
           w < tag (instruction e))"
      by (auto simp: regs_ok_def)
    have run: "ready_instructions_ps (i # rest) s =
        Inr ((if b1 \<and> b2 then [(tag (instruction e), i)] else []) @ more)"
      using False by (simp add: e_def [symmetric] more(1) b1(1) b2(1) and_then_Inr)
    have notin: "i \<notin> snd ` set more" if "distinct (i # rest)"
      using more(2) that by auto
    show ?thesis
      unfolding run
      using more(2,3,4) False b1(2) b2(2) notin
      by (auto simp: e_def)
  qed
qed

lemma fire_effect:
  assumes ok: "regs_ok (instruction (reservation_station s ! snd c))"
  shows "\<exists>t. fire_ps c s = Inr t \<and> same_front s t
     \<and> result_bus_tags t = result_bus_tags s
     \<and> register_in_flight_writers t = register_in_flight_writers s
     \<and> ((reservation_station t = (reservation_station s)
            [snd c := (reservation_station s ! snd c)\<lparr>fired := True, execute_cycles_left := 1\<rparr>]
          \<and> fu_type (op_code (instruction (reservation_station s ! snd c))) \<in> {0, 1, 2}
          \<and> 0 < fu_available (fu_type (op_code (instruction (reservation_station s ! snd c)))) s
          \<and> (\<forall>k. fu_available k t = fu_available k s
                - (if k = fu_type (op_code (instruction (reservation_station s ! snd c)))
                   then 1 else 0)))
        \<or> (reservation_station t = reservation_station s
          \<and> (\<forall>k. fu_available k t = fu_available k s)
          \<and> \<not> (fu_type (op_code (instruction (reservation_station s ! snd c))) \<in> {0, 1, 2}
               \<and> 0 < fu_available (fu_type (op_code (instruction (reservation_station s ! snd c)))) s)))"
proof -
  define e where "e = reservation_station s ! snd c"
  have d: "dest_reg (instruction e) = - 1 \<or> reg_ok (dest_reg (instruction e))"
    using ok by (simp add: regs_ok_def e_def)
  show ?thesis
    unfolding e_def [symmetric]
    using d
    by (auto simp: fire_ps_def Let_def e_def [symmetric] acquire_fu_def same_front_def
        fu_available_def split: if_splits)
qed







section \<open>Termination: dispatch and fetch\<close>

lemma dispatch_slot_effect_ps:
  assumes q: "dispatch_queue s = inst # rest"
    and nv: "\<not> valid (reservation_station s ! i)"
    and ok: "dest_reg inst = - 1 \<or> reg_ok (dest_reg inst)"
  shows "\<exists>t. dispatch_slot_ps i s = Inr t
     \<and> reservation_station t = (reservation_station s)[i := admitted inst (reservation_station s ! i)]
     \<and> dispatch_queue t = rest
     \<and> register_in_flight_writers t =
         (if dest_reg inst \<noteq> - 1
          then (register_in_flight_writers s)
                 (dest_reg inst := insert (tag inst) (register_in_flight_writers s (dest_reg inst)))
          else register_in_flight_writers s)
     \<and> trace t = trace s \<and> global_tag_counter t = global_tag_counter s
     \<and> instructions_retired t = instructions_retired s
     \<and> result_bus_tags t = result_bus_tags s
     \<and> current_cycle t = current_cycle s
     \<and> k0_fu_available t = k0_fu_available s \<and> k1_fu_available t = k1_fu_available s
     \<and> k2_fu_available t = k2_fu_available s"
  using assms
  by (auto simp: dispatch_slot_ps_def Let_def admitted_def and_then_def)







section \<open>Termination: the second halves\<close>







section \<open>Termination: one cycle\<close>









section \<open>Termination of the loop\<close>





section \<open>The loop of procsim.cpp\<close>















section \<open>Register indices stay in bounds: procsim.cpp\<close>

lemma in_bounds_ps_setup:
  "\<forall>i\<in>set input. regs_ok i \<Longrightarrow> in_bounds_p2 (setup_proc_ps cfg input)"
  by (simp add: in_bounds_p2_def setup_proc_ps_def rs_zero_def inst_zero_def regs_ok_def
      reg_ok_def NUM_REGISTERS_def)

lemma state_update_tag_ps_ok:
  assumes "in_bounds_p2 s"
  shows "\<exists>t. state_update_tag_ps tg s = Inr t \<and> in_bounds_p2 t"
proof (cases "find_slot (reservation_station s) tg")
  case None
  then show ?thesis
    using assms by (simp add: state_update_tag_ps_def Let_def in_bounds_p2_def)
next
  case (Some i)
  define e where "e = reservation_station s ! i"
  have i: "i < length (reservation_station s)" using find_slot_less [OF Some] .
  have ok: "regs_ok (instruction e)"
    using in_bounds_p2_nth [OF assms i] by (simp add: e_def)
  have upd: "\<forall>x\<in>set ((reservation_station s)[i := e\<lparr>state_updated := True\<rparr>]).
      regs_ok (instruction x)"
    by (rule set_update_ok) (use assms ok in \<open>simp_all add: in_bounds_p2_def\<close>)
  show ?thesis
    using Some assms ok upd
    by (auto simp: state_update_tag_ps_def Let_def in_bounds_p2_def regs_ok_def
        e_def [symmetric])
qed

lemma state_update_loop_ps_ok:
  "in_bounds_p2 s \<Longrightarrow> \<exists>t. state_update_loop_ps ps s = Inr t \<and> in_bounds_p2 t"
proof (induction ps arbitrary: s)
  case Nil
  then show ?case by simp
next
  case (Cons p ps)
  from state_update_tag_ps_ok [OF Cons.prems, of "fst p"]
  obtain s1 where "state_update_tag_ps (fst p) s = Inr s1" "in_bounds_p2 s1" by blast
  then show ?case using Cons.IH [of s1] by (simp add: and_then_Inr)
qed

lemma state_update_first_ps_ok:
  assumes "in_bounds_p2 s"
  shows "\<exists>t. state_update_stage_first_half_ps s = Inr t \<and> in_bounds_p2 t"
proof -
  from state_update_loop_ps_ok [OF assms]
  obtain s1 where "state_update_loop_ps
      (sort_key (\<lambda>p. (snd p, fst p)) (tag_with_completion_ps s)) s = Inr s1" "in_bounds_p2 s1"
    by blast
  then show ?thesis
    by (simp add: state_update_stage_first_half_ps_def and_then_Inr in_bounds_p2_def)
qed

lemma broadcast_loop_ps_frame:
  "reservation_station (broadcast_loop_ps cfg used idxs s) = reservation_station s
   \<and> trace (broadcast_loop_ps cfg used idxs s) = trace s
   \<and> dispatch_queue (broadcast_loop_ps cfg used idxs s) = dispatch_queue s"
proof (induction idxs arbitrary: used s)
  case Nil
  show ?case by simp
next
  case (Cons idx rest)
  show ?case
    by (subst (1 2 3) broadcast_loop_Cons) (simp add: Cons.IH put_on_bus_frame)
qed

lemma execute_stage_ps_ok:
  assumes "in_bounds_p2 s"
  shows "in_bounds_p2 (execute_stage_first_half_ps cfg s)"
  using assms
  by (simp add: in_bounds_p2_def execute_stage_first_half_ps_def broadcast_phase_ps_def
      broadcast_loop_ps_frame complete_phase_ps_frame)

lemma fire_ps_ok:
  assumes "in_bounds_p2 s" and "snd c < length (reservation_station s)"
  shows "\<exists>t. fire_ps c s = Inr t \<and> in_bounds_p2 t
     \<and> length (reservation_station t) = length (reservation_station s)"
proof -
  define e where "e = reservation_station s ! snd c"
  have ok: "regs_ok (instruction e)"
    using in_bounds_p2_nth [OF assms] by (simp add: e_def)
  from fire_effect [of s c] ok
  obtain t where t: "fire_ps c s = Inr t" "same_front s t"
      "reservation_station t = (reservation_station s)
          [snd c := e\<lparr>fired := True, execute_cycles_left := 1\<rparr>]
       \<or> reservation_station t = reservation_station s"
    unfolding e_def by blast
  have upd: "\<forall>x\<in>set ((reservation_station s)
      [snd c := e\<lparr>fired := True, execute_cycles_left := 1\<rparr>]). regs_ok (instruction x)"
    by (rule set_update_ok) (use assms(1) ok in \<open>simp_all add: in_bounds_p2_def\<close>)
  have "in_bounds_p2 t \<and> length (reservation_station t) = length (reservation_station s)"
    using t(2,3) assms(1) upd by (auto simp: in_bounds_p2_def same_front_def)
  then show ?thesis using t(1) by blast
qed

lemma fire_loop_ps_ok:
  assumes "in_bounds_p2 s" and "\<forall>c\<in>set cands. snd c < length (reservation_station s)"
  shows "\<exists>t. fire_loop_ps cands s = Inr t \<and> in_bounds_p2 t"
  using assms
proof (induction cands arbitrary: s)
  case Nil
  then show ?case by simp
next
  case (Cons c rest)
  from fire_ps_ok [OF Cons.prems(1), of c] Cons.prems(2)
  obtain s1 where s1: "fire_ps c s = Inr s1" "in_bounds_p2 s1"
      "length (reservation_station s1) = length (reservation_station s)"
    by auto
  have "\<forall>c\<in>set rest. snd c < length (reservation_station s1)"
    using Cons.prems(2) s1(3) by simp
  from Cons.IH [OF s1(2) this] show ?case
    by (simp add: s1(1) and_then_Inr)
qed

lemma schedule_first_ps_ok:
  assumes "in_bounds_p2 s"
  shows "\<exists>t. schedule_stage_first_half_ps s = Inr t \<and> in_bounds_p2 t"
proof -
  have regs: "\<forall>e\<in>set (reservation_station s). regs_ok (instruction e)"
    using assms by (simp add: in_bounds_p2_def)
  from ready_instructions_effect [OF regs, of "[0..<length (reservation_station s)]"]
  obtain cands where cands:
      "ready_instructions_ps [0..<length (reservation_station s)] s = Inr cands"
      "\<forall>c\<in>set cands. snd c < length (reservation_station s)"
    by auto
  have "\<forall>c\<in>set (sort cands). snd c < length (reservation_station s)"
    using cands(2) by simp
  from fire_loop_ps_ok [OF assms this] show ?thesis
    by (simp add: schedule_stage_first_half_ps_def cands(1) and_then_Inr)
qed

lemma dispatch_slot_ps_ok:
  assumes "in_bounds_p2 s" and "i < length (reservation_station s)"
  shows "\<exists>t. dispatch_slot_ps i s = Inr t \<and> in_bounds_p2 t
     \<and> length (reservation_station t) = length (reservation_station s)"
proof (cases "dispatch_queue s = [] \<or> valid (reservation_station s ! i)")
  case True
  then have "dispatch_slot_ps i s = Inr s"
    by (auto simp: dispatch_slot_ps_def Let_def split: list.splits)
  then show ?thesis using assms(1) by simp
next
  case False
  then obtain inst rest where q: "dispatch_queue s = inst # rest"
    by (cases "dispatch_queue s") auto
  have ok: "regs_ok inst" "\<forall>x\<in>set rest. regs_ok x"
    using assms(1) q by (simp_all add: in_bounds_p2_def)
  then have d: "dest_reg inst = - 1 \<or> reg_ok (dest_reg inst)" by (simp add: regs_ok_def)
  from dispatch_slot_effect_ps [OF q _ d, of i] False
  obtain t where t: "dispatch_slot_ps i s = Inr t"
      "reservation_station t =
         (reservation_station s)[i := admitted inst (reservation_station s ! i)]"
      "dispatch_queue t = rest" "trace t = trace s"
    by blast
  have "\<forall>x\<in>set ((reservation_station s)[i := admitted inst (reservation_station s ! i)]).
      regs_ok (instruction x)"
    by (rule set_update_ok) (use assms(1) ok in \<open>simp_all add: in_bounds_p2_def admitted_def\<close>)
  then have "in_bounds_p2 t"
    using assms(1) ok(2) by (simp add: in_bounds_p2_def t(2,3,4))
  then show ?thesis using t(1,2) by simp
qed

lemma dispatch_loop_ps_ok:
  assumes "in_bounds_p2 s" and "\<forall>i\<in>set idxs. i < length (reservation_station s)"
  shows "\<exists>t. dispatch_loop_ps idxs s = Inr t \<and> in_bounds_p2 t"
  using assms
proof (induction idxs arbitrary: s)
  case Nil
  then show ?case by simp
next
  case (Cons i rest)
  from dispatch_slot_ps_ok [OF Cons.prems(1), of i] Cons.prems(2)
  obtain s1 where s1: "dispatch_slot_ps i s = Inr s1" "in_bounds_p2 s1"
      "length (reservation_station s1) = length (reservation_station s)"
    by auto
  have "\<forall>i\<in>set rest. i < length (reservation_station s1)"
    using Cons.prems(2) s1(3) by simp
  from Cons.IH [OF s1(2) this] show ?case
    by (simp add: s1(1) and_then_Inr)
qed

lemma fetch_ps_ok:
  assumes "in_bounds_p2 s"
  shows "in_bounds_p2 (fetch_stage_ps cfg s)"
proof -
  have one: "in_bounds_p2 (fetch_one_ps t)" if "in_bounds_p2 t" for t
    using that by (auto simp: in_bounds_p2_def fetch_one_ps_def regs_ok_def split: list.splits)
  have "in_bounds_p2 ((fetch_one_ps ^^ n) s)" for n
    by (induction n) (simp_all add: assms one)
  then show ?thesis by (simp add: fetch_stage_ps_def)
qed

lemma cycle_ps_ok:
  assumes "in_bounds_p2 s"
  shows "\<exists>t. cycle_ps cfg s = Inr t \<and> in_bounds_p2 t"
proof -
  define s0 where "s0 = s\<lparr>current_cycle := current_cycle s + 1\<rparr>"
  have "in_bounds_p2 s0" using assms by (simp add: in_bounds_p2_def s0_def)
  from state_update_first_ps_ok [OF this]
  obtain s1 where s1: "state_update_stage_first_half_ps s0 = Inr s1" "in_bounds_p2 s1"
    by blast
  define s2 where "s2 = execute_stage_first_half_ps cfg s1"
  have "in_bounds_p2 s2" unfolding s2_def by (rule execute_stage_ps_ok [OF s1(2)])
  from schedule_first_ps_ok [OF this]
  obtain s3 where s3: "schedule_stage_first_half_ps s2 = Inr s3" "in_bounds_p2 s3"
    by blast
  from dispatch_loop_ps_ok [OF s3(2), of "[0..<length (reservation_station s3)]"]
  obtain s4 where s4: "dispatch_stage_first_half_ps s3 = Inr s4" "in_bounds_p2 s4"
    unfolding dispatch_stage_first_half_ps_def by auto
  define s5 where "s5 = fetch_stage_ps cfg s4"
  have "in_bounds_p2 s5" unfolding s5_def by (rule fetch_ps_ok [OF s4(2)])
  from schedule_second_p2_ok [OF this]
  obtain s6 where s6: "schedule_stage_second_half_p2 s5 = Inr s6" "in_bounds_p2 s6"
    by blast
  have run: "cycle_ps cfg s = Inr (state_update_stage_second_half_p2 s6)"
    unfolding cycle_ps_def Let_def s0_def [symmetric] s1(1) and_then_Inr s2_def [symmetric]
      s3(1) s4(1) s5_def [symmetric] s6(1)
    by (rule refl)
  show ?thesis
    unfolding run using retire_p2_ok [OF s6(2)] by simp
qed

lemma cycles_ps_ok:
  "in_bounds_p2 s \<Longrightarrow> \<exists>t. cycles_ps n cfg s = Inr t \<and> in_bounds_p2 t"
proof (induction n arbitrary: s)
  case 0
  then show ?case by simp
next
  case (Suc n)
  from cycle_ps_ok [OF Suc.prems] obtain s1 where "cycle_ps cfg s = Inr s1" "in_bounds_p2 s1"
    by blast
  then show ?case
    using Suc.IH [of s1] by (simp add: and_then_def)
qed

lemma run_proc_ps_ok:
  "in_bounds_p2 s \<Longrightarrow> run_proc_ps n probe cfg s \<noteq> Inl IndexOutOfRange"
proof (induction n arbitrary: s)
  case 0
  then show ?case by simp
next
  case (Suc n)
  from cycle_ps_ok [OF Suc.prems] obtain s1 where "cycle_ps cfg s = Inr s1" "in_bounds_p2 s1"
    by blast
  then show ?case
    using Suc.IH [of s1] by (simp add: and_then_def)
qed

subsection \<open>The claim\<close>

text \<open>C10 on part_001 (register status table), part_002 (register-ready array) and
  procsim.cpp (register-ready array, last state-updated and last scheduled writers,
  in-flight writer sets). If every source and destination register of every instruction
  of the input is \<open>-1\<close> or lies in the register file, then no cycle of the run reaches an
  access outside an array: any number of cycles from the initial state gives a state, and
  the run ends with a state or at the cycle ceiling, never with the indexing error.\<close>

theorem registers_in_bounds:
  assumes "\<forall>i\<in>set input. regs_ok i"
  shows "(\<exists>t. cycles_p1 n cfg (setup_proc_p1 cfg input) = Inr t)
    \<and> run_proc_p1 n probe cfg (setup_proc_p1 cfg input) \<noteq> Inl IndexOutOfRange
    \<and> (\<exists>t. cycles_p2 n cfg (setup_proc_p2 cfg input) = Inr t)
    \<and> run_proc_p2 n probe cfg (setup_proc_p2 cfg input) \<noteq> Inl IndexOutOfRange
    \<and> (\<exists>t. cycles_ps n cfg (setup_proc_ps cfg input) = Inr t)
    \<and> run_proc_ps n probe cfg (setup_proc_ps cfg input) \<noteq> Inl IndexOutOfRange"
proof -
  have "in_bounds_p1 (setup_proc_p1 cfg input)" by (rule in_bounds_setup [OF assms])
  then have p1: "\<exists>t. cycles_p1 n cfg (setup_proc_p1 cfg input) = Inr t"
      "run_proc_p1 n probe cfg (setup_proc_p1 cfg input) \<noteq> Inl IndexOutOfRange"
    using cycles_p1_ok run_proc_p1_ok by blast+
  have "in_bounds_p2 (setup_proc_p2 cfg input)" by (rule in_bounds_p2_setup [OF assms])
  then have p2: "\<exists>t. cycles_p2 n cfg (setup_proc_p2 cfg input) = Inr t"
      "run_proc_p2 n probe cfg (setup_proc_p2 cfg input) \<noteq> Inl IndexOutOfRange"
    using cycles_p2_ok run_proc_p2_ok by blast+
  have "in_bounds_p2 (setup_proc_ps cfg input)" by (rule in_bounds_ps_setup [OF assms])
  then have ps: "\<exists>t. cycles_ps n cfg (setup_proc_ps cfg input) = Inr t"
      "run_proc_ps n probe cfg (setup_proc_ps cfg input) \<noteq> Inl IndexOutOfRange"
    using cycles_ps_ok run_proc_ps_ok by blast+
  show ?thesis using p1 p2 ps by (intro conjI)
qed

theorem registers_in_bounds_witness:
  "list_all regs_ok prog_pair
   \<and> (\<exists>t. cycles_p1 7 cfg_pair (setup_proc_p1 cfg_pair prog_pair) = Inr t)
   \<and> run_proc_p2 7 more_input cfg_pair (setup_proc_p2 cfg_pair prog_pair) \<noteq> Inl IndexOutOfRange
   \<and> (\<exists>t. cycles_ps 7 cfg_pair (setup_proc_ps cfg_pair prog_pair) = Inr t)"
proof -
  have ok: "\<forall>i\<in>set prog_pair. regs_ok i"
    by (simp add: prog_pair_def insn_def regs_ok_def reg_ok_def NUM_REGISTERS_def)
  from registers_in_bounds [OF ok, of 7 cfg_pair more_input] ok show ?thesis
    by (simp add: list_all_iff)
qed

text \<open>The precondition is needed: the code tests no index. A destination register 128
  is written into the table when the instruction is dispatched, in cycle 2; in procsim.cpp
  it selects the set of in-flight writers in the same cycle.\<close>

lemma register_out_of_bounds_example:
  "cycles_p1 2 cfg_unit (setup_proc_p1 cfg_unit [insn 0 (- 1) (- 1) 128]) = Inl IndexOutOfRange
   \<and> cycles_ps 2 cfg_unit (setup_proc_ps cfg_unit [insn 0 (- 1) (- 1) 128]) = Inl IndexOutOfRange
   \<and> \<not> regs_ok (insn 0 (- 1) (- 1) 128)"
  by (simp add: p1_defs ps_defs p2_defs run_defs cfg_unit_def regs_ok_def
      cong: and_then_weak_cong let_weak_cong)

end
